theory Spec2Isabelle
  imports Main
begin

section \<open>The board and its constants\<close>

text \<open>
  The game keeps a \<open>char board[SIZE][SIZE]\<close> with \<open>SIZE = 3\<close>. The array is modelled
  as a total function of its row and column index (C \<open>int\<close>s, here \<open>int\<close>); the code
  reads and writes the indices 0, 1, 2 only, and the one write whose index may be out of
  range (the final placement of \<open>makeHardAIMove\<close>) is an explicit error branch.
  A write \<open>board[r][c] = v\<close> is \<open>put\<close>.
\<close>

type_synonym board = "int \<Rightarrow> int \<Rightarrow> char"

definition SIZE :: int where
  "SIZE = 3"

definition PLAYER :: char where
  "PLAYER = CHR ''X''"

definition AI :: char where
  "AI = CHR ''O''"

definition BLANK :: char where
  "BLANK = CHR '' ''"

definition put :: "board \<Rightarrow> int \<Rightarrow> int \<Rightarrow> char \<Rightarrow> board" where
  "put b r c v = b(r := (b r)(c := v))"

text \<open>The board \<open>playGame\<close> starts from: every cell a space.\<close>

definition emptyBoard :: board where
  "emptyBoard = (\<lambda>r c. BLANK)"

text \<open>
  The nested loops \<open>for r in 0..SIZE-1, for c in 0..SIZE-1\<close> visit the cells in
  row-major order; the loops below recurse over this list of index pairs.
\<close>

definition cells :: "(int \<times> int) list" where
  "cells = [(0, 0), (0, 1), (0, 2), (1, 0), (1, 1), (1, 2), (2, 0), (2, 1), (2, 2)]"

section \<open>checkWinner, isDraw, evaluate\<close>

fun checkRows :: "board \<Rightarrow> int list \<Rightarrow> char option" where
  "checkRows b [] = None"
| "checkRows b (r # rs) =
     (if b r 0 \<noteq> BLANK \<and> b r 0 = b r 1 \<and> b r 1 = b r 2 then Some (b r 0)
      else checkRows b rs)"

fun checkCols :: "board \<Rightarrow> int list \<Rightarrow> char option" where
  "checkCols b [] = None"
| "checkCols b (c # cs) =
     (if b 0 c \<noteq> BLANK \<and> b 0 c = b 1 c \<and> b 1 c = b 2 c then Some (b 0 c)
      else checkCols b cs)"

definition checkWinner :: "board \<Rightarrow> char" where
  "checkWinner b =
     (case checkRows b [0, 1, 2] of
        Some w \<Rightarrow> w
      | None \<Rightarrow>
         (case checkCols b [0, 1, 2] of
            Some w \<Rightarrow> w
          | None \<Rightarrow>
             if b 0 0 \<noteq> BLANK \<and> b 0 0 = b 1 1 \<and> b 1 1 = b 2 2 then b 0 0
             else if b 0 2 \<noteq> BLANK \<and> b 0 2 = b 1 1 \<and> b 1 1 = b 2 0 then b 0 2
             else BLANK))"

fun isDraw_loop :: "board \<Rightarrow> (int \<times> int) list \<Rightarrow> bool" where
  "isDraw_loop b [] = True"
| "isDraw_loop b ((r, c) # rest) = (if b r c = BLANK then False else isDraw_loop b rest)"

definition isDraw :: "board \<Rightarrow> bool" where
  "isDraw b = isDraw_loop b cells"

definition evaluate :: "board \<Rightarrow> int" where
  "evaluate b =
     (let winner = checkWinner b in
      if winner = AI then 10
      else if winner = PLAYER then - 10
      else 0)"

section \<open>tryWinningMove\<close>

text \<open>
  The out-parameters \<open>r\<close>, \<open>c\<close> are written only on the path that returns true, so the
  result is \<open>Some (r, c)\<close> for true and \<open>None\<close> for false; the board is passed by
  reference and mutated, so the model returns it as well.
\<close>

fun tryWinningMove_loop ::
  "board \<Rightarrow> (int \<times> int) list \<Rightarrow> char \<Rightarrow> (int \<times> int) option \<times> board" where
  "tryWinningMove_loop b [] symbol = (None, b)"
| "tryWinningMove_loop b ((i, j) # rest) symbol =
     (if b i j = BLANK then
        (let b1 = put b i j symbol in
         if checkWinner b1 = symbol then (Some (i, j), put b1 i j BLANK)
         else tryWinningMove_loop (put b1 i j BLANK) rest symbol)
      else tryWinningMove_loop b rest symbol)"

definition tryWinningMove :: "board \<Rightarrow> char \<Rightarrow> (int \<times> int) option \<times> board" where
  "tryWinningMove b symbol = tryWinningMove_loop b cells symbol"

section \<open>The Easy and Medium strategies\<close>

text \<open>
  \<open>rand()\<close> is modelled by the list of the values it returns, consumed from the front;
  the do-while loop of \<open>makeEasyAIMove\<close> draws two values per round. \<open>None\<close> means that
  the loop has not left by the time the given values are used up.
\<close>

fun makeEasyAIMove :: "nat list \<Rightarrow> board \<Rightarrow> (board \<times> nat list) option" where
  "makeEasyAIMove (x # y # rs) b =
     (let r = int x mod SIZE; c = int y mod SIZE in
      if b r c \<noteq> BLANK then makeEasyAIMove rs b
      else Some (put b r c AI, rs))"
| "makeEasyAIMove rs b = None"

definition makeMediumAIMove :: "nat list \<Rightarrow> board \<Rightarrow> (board \<times> nat list) option" where
  "makeMediumAIMove rs b =
     (case tryWinningMove b AI of
        (Some (r, c), b1) \<Rightarrow> Some (put b1 r c AI, rs)
      | (None, b1) \<Rightarrow>
         (case tryWinningMove b1 PLAYER of
            (Some (r, c), b2) \<Rightarrow> Some (put b2 r c AI, rs)
          | (None, b2) \<Rightarrow> makeEasyAIMove rs b2))"

section \<open>minimax\<close>

text \<open>
  \<open>minimax\<close> mutates the board it is given and reverts each trial placement, so the
  model returns the score together with the board as the call leaves it. The two loops
  of the source are \<open>max_loop\<close> and \<open>min_loop\<close>, with the running \<open>best\<close> as argument.
\<close>

function (domintros)
  minimax :: "board \<Rightarrow> bool \<Rightarrow> int \<times> board" and
  max_loop :: "board \<Rightarrow> (int \<times> int) list \<Rightarrow> int \<Rightarrow> int \<times> board" and
  min_loop :: "board \<Rightarrow> (int \<times> int) list \<Rightarrow> int \<Rightarrow> int \<times> board"
where
  "minimax b isMaximizing =
     (let score = evaluate b in
      if score = 10 \<or> score = - 10 \<or> isDraw b then (score, b)
      else if isMaximizing then max_loop b cells (- 1000)
      else min_loop b cells 1000)"
| "max_loop b [] best = (best, b)"
| "max_loop b ((r, c) # rest) best =
     (if b r c = BLANK then
        (let res = minimax (put b r c AI) False in
         max_loop (put (snd res) r c BLANK) rest (max best (fst res)))
      else max_loop b rest best)"
| "min_loop b [] best = (best, b)"
| "min_loop b ((r, c) # rest) best =
     (if b r c = BLANK then
        (let res = minimax (put b r c PLAYER) True in
         min_loop (put (snd res) r c BLANK) rest (min best (fst res)))
      else min_loop b rest best)"
  by pat_completeness auto

subsection \<open>Termination of minimax\<close>

text \<open>
  The recursion is well-founded on the number of empty cells of the board. Since the
  board handed to the next loop round is the one the recursive call returns, the proof
  first shows, for calls that return, that a call leaves the board as it found it.
\<close>

lemma put_put_BLANK: "b r c = BLANK \<Longrightarrow> put (put b r c v) r c BLANK = b"
  by (auto simp: put_def fun_eq_iff)

lemma board_unchanged_partial:
  "minimax_max_loop_min_loop_dom (Inl (b, m)) \<Longrightarrow> snd (minimax b m) = b"
  "minimax_max_loop_min_loop_dom (Inr (Inl (b, cs, best))) \<Longrightarrow> snd (max_loop b cs best) = b"
  "minimax_max_loop_min_loop_dom (Inr (Inr (b, cs, best))) \<Longrightarrow> snd (min_loop b cs best) = b"
proof (induct rule: minimax_max_loop_min_loop.pinduct)
  case (1 b isMaximizing)
  then show ?case by (simp add: minimax.psimps max_loop.psimps min_loop.psimps Let_def)
next
  case (2 b best)
  then show ?case by (simp add: minimax.psimps max_loop.psimps min_loop.psimps)
next
  case (3 b r c rest best)
  then show ?case by (simp add: minimax.psimps max_loop.psimps min_loop.psimps Let_def put_put_BLANK)
next
  case (4 b best)
  then show ?case by (simp add: minimax.psimps max_loop.psimps min_loop.psimps)
next
  case (5 b r c rest best)
  then show ?case by (simp add: minimax.psimps max_loop.psimps min_loop.psimps Let_def put_put_BLANK)
qed

text \<open>
  \<open>empties\<close> counts the empty cells of the array. The loops are defined for any list
  of index pairs; \<open>loop_rank\<close> orders a loop over cells outside the array above the call
  of \<open>minimax\<close> it makes, and a loop over cells of the array below the call that starts it.
\<close>

definition empties :: "board \<Rightarrow> nat" where
  "empties b = length (filter (\<lambda>(r, c). b r c = BLANK) cells)"

definition loop_rank :: "(int \<times> int) list \<Rightarrow> nat" where
  "loop_rank cs = (if set cs \<subseteq> set cells then length cs else 11 + length cs)"

lemma AI_not_BLANK [simp]: "AI \<noteq> BLANK" "BLANK \<noteq> AI"
  by (simp_all add: AI_def BLANK_def)

lemma PLAYER_not_BLANK [simp]: "PLAYER \<noteq> BLANK" "BLANK \<noteq> PLAYER"
  by (simp_all add: PLAYER_def BLANK_def)

lemma AI_not_PLAYER [simp]: "AI \<noteq> PLAYER" "PLAYER \<noteq> AI"
  by (simp_all add: PLAYER_def AI_def)

lemma put_apply: "put b r c v r' c' = (if r' = r \<and> c' = c then v else b r' c')"
  by (simp add: put_def)

lemma filter_put_le:
  "v \<noteq> BLANK \<Longrightarrow>
   length (filter (\<lambda>(r', c'). put b r c v r' c' = BLANK) xs)
     \<le> length (filter (\<lambda>(r', c'). b r' c' = BLANK) xs)"
proof (induction xs)
  case Nil
  then show ?case by simp
next
  case (Cons x xs)
  obtain r' c' where x: "x = (r', c')" by (cases x)
  have "put b r c v r' c' = BLANK \<Longrightarrow> b r' c' = BLANK"
    using Cons.prems by (simp add: put_apply split: if_splits)
  with Cons x show ?case by auto
qed

lemma filter_put_less:
  "v \<noteq> BLANK \<Longrightarrow> b r c = BLANK \<Longrightarrow> (r, c) \<in> set xs \<Longrightarrow>
   length (filter (\<lambda>(r', c'). put b r c v r' c' = BLANK) xs)
     < length (filter (\<lambda>(r', c'). b r' c' = BLANK) xs)"
proof (induction xs)
  case Nil
  then show ?case by simp
next
  case (Cons x xs)
  obtain r' c' where x: "x = (r', c')" by (cases x)
  show ?case
  proof (cases "x = (r, c)")
    case True
    then have "put b r c v r' c' = v" "b r' c' = BLANK"
      using x Cons.prems by (simp_all add: put_apply)
    with Cons.prems filter_put_le [of v b r c xs] x show ?thesis
      by (simp add: less_Suc_eq_le)
  next
    case False
    then have "put b r c v r' c' = b r' c'"
      using x by (auto simp: put_apply)
    moreover have "(r, c) \<in> set xs" using False Cons.prems by auto
    ultimately show ?thesis using Cons.IH Cons.prems x by simp
  qed
qed

lemma empties_put_less:
  "v \<noteq> BLANK \<Longrightarrow> b r c = BLANK \<Longrightarrow> (r, c) \<in> set cells \<Longrightarrow> empties (put b r c v) < empties b"
  unfolding empties_def by (rule filter_put_less)

lemma empties_put_le: "v \<noteq> BLANK \<Longrightarrow> empties (put b r c v) \<le> empties b"
  unfolding empties_def by (rule filter_put_le)

lemma loop_rank_Cons: "loop_rank rest < loop_rank (x # rest)"
  by (auto simp: loop_rank_def)

lemma loop_rank_cells: "loop_rank cells = 9"
  by (simp add: loop_rank_def) (simp add: cells_def)

type_synonym call =
  "board \<times> bool + board \<times> (int \<times> int) list \<times> int + board \<times> (int \<times> int) list \<times> int"

definition call_rank :: "call \<Rightarrow> nat" where
  "call_rank x = (case x of Inl (b, m) \<Rightarrow> 10
                  | Inr (Inl (b, cs, best)) \<Rightarrow> loop_rank cs
                  | Inr (Inr (b, cs, best)) \<Rightarrow> loop_rank cs)"

definition call_board :: "call \<Rightarrow> board" where
  "call_board x = (case x of Inl (b, m) \<Rightarrow> b
                  | Inr (Inl (b, cs, best)) \<Rightarrow> b
                  | Inr (Inr (b, cs, best)) \<Rightarrow> b)"

lemma trial_rank:
  assumes "v \<noteq> BLANK" "b r c = BLANK"
  shows "empties (put b r c v) < empties b \<or>
         empties (put b r c v) = empties b \<and> 10 < loop_rank ((r, c) # rest)"
proof (cases "(r, c) \<in> set cells")
  case True
  with assms show ?thesis by (simp add: empties_put_less)
next
  case False
  then have "loop_rank ((r, c) # rest) = 12 + length rest"
    by (simp add: loop_rank_def)
  with empties_put_le [OF assms(1), of b r c] show ?thesis by auto
qed

lemma all_calls_terminate: "All minimax_max_loop_min_loop_dom"
proof (relation "measures [\<lambda>x. empties (call_board x), call_rank]", goal_cases)
  case 1 show ?case by simp
next
  case 2 show ?case by (simp add: call_rank_def call_board_def loop_rank_cells)
next
  case 3 show ?case by (simp add: call_rank_def call_board_def loop_rank_cells)
next
  case (4 b r c rest best)
  with trial_rank [of AI b r c rest] show ?case
    by (auto simp: call_rank_def call_board_def)
next
  case (5 b r c rest best x)
  then show ?case
    by (simp add: call_rank_def call_board_def loop_rank_Cons board_unchanged_partial put_put_BLANK)
next
  case (6 b r c rest best)
  then show ?case by (simp add: call_rank_def call_board_def loop_rank_Cons)
next
  case (7 b r c rest best)
  with trial_rank [of PLAYER b r c rest] show ?case
    by (auto simp: call_rank_def call_board_def)
next
  case (8 b r c rest best x)
  then show ?case
    by (simp add: call_rank_def call_board_def loop_rank_Cons board_unchanged_partial put_put_BLANK)
next
  case (9 b r c rest best)
  then show ?case by (simp add: call_rank_def call_board_def loop_rank_Cons)
qed

termination minimax
  by (rule all_calls_terminate)

declare minimax.simps [simp del]

section \<open>The Hard strategy\<close>

text \<open>
  \<open>makeHardAIMove\<close> is the search loop followed by the placement
  \<open>board[bestRow][bestCol] = AI\<close>. The search keeps \<open>bestVal\<close>, \<open>bestRow\<close> and
  \<open>bestCol\<close>, which start at -1000, -1 and -1. A placement outside the array is
  undefined behaviour in C++; the model makes it the error \<open>OutOfRange\<close>.
\<close>

datatype error = OutOfRange

fun makeHardAIMove_loop ::
  "board \<Rightarrow> (int \<times> int) list \<Rightarrow> int \<Rightarrow> int \<Rightarrow> int \<Rightarrow> (int \<times> int \<times> int) \<times> board" where
  "makeHardAIMove_loop b [] bestVal bestRow bestCol = ((bestVal, bestRow, bestCol), b)"
| "makeHardAIMove_loop b ((r, c) # rest) bestVal bestRow bestCol =
     (if b r c = BLANK then
        (let res = minimax (put b r c AI) False;
             moveVal = fst res;
             b' = put (snd res) r c BLANK in
         if moveVal > bestVal then makeHardAIMove_loop b' rest moveVal r c
         else makeHardAIMove_loop b' rest bestVal bestRow bestCol)
      else makeHardAIMove_loop b rest bestVal bestRow bestCol)"

definition makeHardAIMove_search :: "board \<Rightarrow> (int \<times> int \<times> int) \<times> board" where
  "makeHardAIMove_search b = makeHardAIMove_loop b cells (- 1000) (- 1) (- 1)"

definition makeHardAIMove :: "board \<Rightarrow> error + board" where
  "makeHardAIMove b =
     (case makeHardAIMove_search b of
        ((bestVal, bestRow, bestCol), b') \<Rightarrow>
          if 0 \<le> bestRow \<and> bestRow < SIZE \<and> 0 \<le> bestCol \<and> bestCol < SIZE
          then Inr (put b' bestRow bestCol AI)
          else Inl OutOfRange)"

section \<open>The game loop\<close>

text \<open>
  \<open>playGame\<close> starts from the empty board with either side to move, lets the side to
  move place its mark, and goes on with the other side unless \<open>checkWinner\<close> reports a
  mark or \<open>isDraw\<close> holds. A position is the board with the flag \<open>playerFirst\<close> of the
  source (true when the human moves next). \<open>playerMove\<close> accepts exactly the empty cells
  within range. In \<open>legalGame\<close> the computer places its mark on any empty cell, which
  covers the three difficulty levels; in \<open>hardGame\<close> it plays \<open>makeHardAIMove\<close>.
\<close>

definition inRange :: "int \<Rightarrow> int \<Rightarrow> bool" where
  "inRange r c = (0 \<le> r \<and> r < SIZE \<and> 0 \<le> c \<and> c < SIZE)"

definition gameOver :: "board \<Rightarrow> bool" where
  "gameOver b = (checkWinner b \<noteq> BLANK \<or> isDraw b)"

inductive_set legalGame :: "(board \<times> bool) set" where
  legal_start: "(emptyBoard, playerFirst) \<in> legalGame"
| legal_player:
    "(b, True) \<in> legalGame \<Longrightarrow> \<not> gameOver b \<Longrightarrow> inRange r c \<Longrightarrow> b r c = BLANK \<Longrightarrow>
     (put b r c PLAYER, False) \<in> legalGame"
| legal_ai:
    "(b, False) \<in> legalGame \<Longrightarrow> \<not> gameOver b \<Longrightarrow> inRange r c \<Longrightarrow> b r c = BLANK \<Longrightarrow>
     (put b r c AI, True) \<in> legalGame"

inductive_set hardGame :: "(board \<times> bool) set" where
  hard_start: "(emptyBoard, playerFirst) \<in> hardGame"
| hard_player:
    "(b, True) \<in> hardGame \<Longrightarrow> \<not> gameOver b \<Longrightarrow> inRange r c \<Longrightarrow> b r c = BLANK \<Longrightarrow>
     (put b r c PLAYER, False) \<in> hardGame"
| hard_ai:
    "(b, False) \<in> hardGame \<Longrightarrow> \<not> gameOver b \<Longrightarrow> makeHardAIMove b = Inr b' \<Longrightarrow>
     (b', True) \<in> hardGame"

text \<open>
  \<open>hardFrom b0 playerFirst0\<close> holds the positions of the continuations of the game from
  the board \<open>b0\<close>, with \<open>playerFirst0\<close> saying who moves there, in which the computer
  plays \<open>makeHardAIMove\<close> at each of its turns: the steps of \<open>hardGame\<close>, from any
  board.
\<close>

inductive_set hardFrom :: "board \<Rightarrow> bool \<Rightarrow> (board \<times> bool) set"
  for b0 :: board and playerFirst0 :: bool where
  from_start: "(b0, playerFirst0) \<in> hardFrom b0 playerFirst0"
| from_player:
    "(b, True) \<in> hardFrom b0 playerFirst0 \<Longrightarrow> \<not> gameOver b \<Longrightarrow> inRange r c \<Longrightarrow>
     b r c = BLANK \<Longrightarrow> (put b r c PLAYER, False) \<in> hardFrom b0 playerFirst0"
| from_ai:
    "(b, False) \<in> hardFrom b0 playerFirst0 \<Longrightarrow> \<not> gameOver b \<Longrightarrow>
     makeHardAIMove b = Inr b' \<Longrightarrow> (b', True) \<in> hardFrom b0 playerFirst0"

section \<open>Calls leave the board as they found it\<close>

lemma cells_nested_loops: "cells = concat (map (\<lambda>r. map (\<lambda>c. (r, c)) [0..SIZE - 1]) [0..SIZE - 1])"
  by (simp add: cells_def SIZE_def upto.simps)

lemma minimax_board [simp]: "snd (minimax b m) = b"
  by (simp add: board_unchanged_partial all_calls_terminate [rule_format])

lemma max_loop_board [simp]: "snd (max_loop b cs best) = b"
  by (simp add: board_unchanged_partial all_calls_terminate [rule_format])

lemma min_loop_board [simp]: "snd (min_loop b cs best) = b"
  by (simp add: board_unchanged_partial all_calls_terminate [rule_format])

lemma tryWinningMove_loop_board [simp]: "snd (tryWinningMove_loop b cs symbol) = b"
  by (induction cs) (auto simp: Let_def put_put_BLANK)

lemma makeHardAIMove_loop_board [simp]:
  "snd (makeHardAIMove_loop b cs bestVal bestRow bestCol) = b"
  by (induction cs arbitrary: bestVal bestRow bestCol) (auto simp: Let_def put_put_BLANK)

text \<open>
  C3. After a call of \<open>tryWinningMove\<close>, of the search of \<open>makeHardAIMove\<close> (all of
  it but the final placement) or of \<open>minimax\<close>, on any board and for any symbol, the
  board is the one the call was given: every trial placement has been reverted, on the
  early-return path of \<open>tryWinningMove\<close> as well.
\<close>

theorem trial_and_revert:
  "snd (tryWinningMove b symbol) = b \<and>
   snd (makeHardAIMove_search b) = b \<and>
   snd (minimax b isMaximizing) = b"
  by (simp add: tryWinningMove_def makeHardAIMove_search_def)

section \<open>What the loops of minimax compute\<close>

lemma isDraw_loop_iff: "isDraw_loop b cs \<longleftrightarrow> (\<forall>(r, c) \<in> set cs. b r c \<noteq> BLANK)"
  by (induction cs) (auto split: if_splits)

lemma isDraw_iff: "isDraw b \<longleftrightarrow> (\<forall>(r, c) \<in> set cells. b r c \<noteq> BLANK)"
  by (simp add: isDraw_def isDraw_loop_iff)

lemma evaluate_cases: "evaluate b = 10 \<or> evaluate b = - 10 \<or> evaluate b = 0"
  by (simp add: evaluate_def Let_def)

lemma minimax_terminal:
  "evaluate b = 10 \<or> evaluate b = - 10 \<or> isDraw b \<Longrightarrow> minimax b m = (evaluate b, b)"
  by (auto simp: minimax.simps Let_def)

lemma minimax_max:
  "evaluate b = 0 \<Longrightarrow> \<not> isDraw b \<Longrightarrow> minimax b True = max_loop b cells (- 1000)"
  by (simp add: minimax.simps Let_def)

lemma minimax_min:
  "evaluate b = 0 \<Longrightarrow> \<not> isDraw b \<Longrightarrow> minimax b False = min_loop b cells 1000"
  by (simp add: minimax.simps Let_def)

lemma max_loop_ge_best: "best \<le> fst (max_loop b cs best)"
proof (induction cs arbitrary: best)
  case Nil
  show ?case by simp
next
  case (Cons x cs)
  obtain r c where x: "x = (r, c)" by (cases x)
  show ?case
  proof (cases "b r c = BLANK")
    case True
    have "max best (fst (minimax (put b r c AI) False))
            \<le> fst (max_loop b cs (max best (fst (minimax (put b r c AI) False))))"
      by (rule Cons.IH)
    with True x show ?thesis by (simp add: Let_def put_put_BLANK)
  next
    case False
    with Cons.IH [of best] x show ?thesis by simp
  qed
qed

lemma max_loop_ge:
  "(r, c) \<in> set cs \<Longrightarrow> b r c = BLANK \<Longrightarrow>
   fst (minimax (put b r c AI) False) \<le> fst (max_loop b cs best)"
proof (induction cs arbitrary: best)
  case Nil
  then show ?case by simp
next
  case (Cons x cs)
  obtain r' c' where x: "x = (r', c')" by (cases x)
  let ?best' = "max best (fst (minimax (put b r' c' AI) False))"
  show ?case
  proof (cases "b r' c' = BLANK")
    case blank: True
    then have step: "fst (max_loop b (x # cs) best) = fst (max_loop b cs ?best')"
      using x by (simp add: Let_def put_put_BLANK)
    show ?thesis
    proof (cases "(r, c) = (r', c')")
      case True
      then have "fst (minimax (put b r c AI) False) \<le> ?best'" by simp
      also have "\<dots> \<le> fst (max_loop b cs ?best')" by (rule max_loop_ge_best)
      finally show ?thesis using step by simp
    next
      case False
      with Cons.prems x have "(r, c) \<in> set cs" by auto
      from Cons.IH [OF this Cons.prems(2)] step show ?thesis by simp
    qed
  next
    case False
    with Cons.prems x have "(r, c) \<in> set cs" by auto
    from Cons.IH [OF this Cons.prems(2)] False x show ?thesis by simp
  qed
qed

lemma max_loop_cases:
  "fst (max_loop b cs best) = best \<or>
   (\<exists>(r, c) \<in> set cs. b r c = BLANK \<and>
      fst (max_loop b cs best) = fst (minimax (put b r c AI) False))"
proof (induction cs arbitrary: best)
  case Nil
  show ?case by simp
next
  case (Cons x cs)
  obtain r' c' where x: "x = (r', c')" by (cases x)
  let ?v = "fst (minimax (put b r' c' AI) False)"
  show ?case
  proof (cases "b r' c' = BLANK")
    case blank: True
    then have step: "fst (max_loop b (x # cs) best) = fst (max_loop b cs (max best ?v))"
      using x by (simp add: Let_def put_put_BLANK)
    from Cons.IH [of "max best ?v"] show ?thesis
    proof
      assume "fst (max_loop b cs (max best ?v)) = max best ?v"
      with step blank x show ?thesis by (auto simp: max_def)
    next
      assume "\<exists>(r, c) \<in> set cs. b r c = BLANK \<and>
        fst (max_loop b cs (max best ?v)) = fst (minimax (put b r c AI) False)"
      with step show ?thesis by auto
    qed
  next
    case False
    with Cons.IH [of best] x show ?thesis by auto
  qed
qed

lemma min_loop_le_best: "fst (min_loop b cs best) \<le> best"
proof (induction cs arbitrary: best)
  case Nil
  show ?case by simp
next
  case (Cons x cs)
  obtain r c where x: "x = (r, c)" by (cases x)
  show ?case
  proof (cases "b r c = BLANK")
    case True
    have "fst (min_loop b cs (min best (fst (minimax (put b r c PLAYER) True))))
            \<le> min best (fst (minimax (put b r c PLAYER) True))"
      by (rule Cons.IH)
    with True x show ?thesis by (simp add: Let_def put_put_BLANK)
  next
    case False
    with Cons.IH [of best] x show ?thesis by simp
  qed
qed

lemma min_loop_le:
  "(r, c) \<in> set cs \<Longrightarrow> b r c = BLANK \<Longrightarrow>
   fst (min_loop b cs best) \<le> fst (minimax (put b r c PLAYER) True)"
proof (induction cs arbitrary: best)
  case Nil
  then show ?case by simp
next
  case (Cons x cs)
  obtain r' c' where x: "x = (r', c')" by (cases x)
  let ?best' = "min best (fst (minimax (put b r' c' PLAYER) True))"
  show ?case
  proof (cases "b r' c' = BLANK")
    case blank: True
    then have step: "fst (min_loop b (x # cs) best) = fst (min_loop b cs ?best')"
      using x by (simp add: Let_def put_put_BLANK)
    show ?thesis
    proof (cases "(r, c) = (r', c')")
      case True
      have "fst (min_loop b cs ?best') \<le> ?best'" by (rule min_loop_le_best)
      also have "\<dots> \<le> fst (minimax (put b r c PLAYER) True)" using True by simp
      finally show ?thesis using step by simp
    next
      case False
      with Cons.prems x have "(r, c) \<in> set cs" by auto
      from Cons.IH [OF this Cons.prems(2)] step show ?thesis by simp
    qed
  next
    case False
    with Cons.prems x have "(r, c) \<in> set cs" by auto
    from Cons.IH [OF this Cons.prems(2)] False x show ?thesis by simp
  qed
qed

lemma min_loop_cases:
  "fst (min_loop b cs best) = best \<or>
   (\<exists>(r, c) \<in> set cs. b r c = BLANK \<and>
      fst (min_loop b cs best) = fst (minimax (put b r c PLAYER) True))"
proof (induction cs arbitrary: best)
  case Nil
  show ?case by simp
next
  case (Cons x cs)
  obtain r' c' where x: "x = (r', c')" by (cases x)
  let ?v = "fst (minimax (put b r' c' PLAYER) True)"
  show ?case
  proof (cases "b r' c' = BLANK")
    case blank: True
    then have step: "fst (min_loop b (x # cs) best) = fst (min_loop b cs (min best ?v))"
      using x by (simp add: Let_def put_put_BLANK)
    from Cons.IH [of "min best ?v"] show ?thesis
    proof
      assume "fst (min_loop b cs (min best ?v)) = min best ?v"
      with step blank x show ?thesis by (auto simp: min_def)
    next
      assume "\<exists>(r, c) \<in> set cs. b r c = BLANK \<and>
        fst (min_loop b cs (min best ?v)) = fst (minimax (put b r c PLAYER) True)"
      with step show ?thesis by auto
    qed
  next
    case False
    with Cons.IH [of best] x show ?thesis by auto
  qed
qed

lemma minimax_range_aux: "fst (minimax b m) \<in> {- 10, 0, 10}"
proof (induction "empties b" arbitrary: b m rule: less_induct)
  case less
  show ?case
  proof (cases "evaluate b = 10 \<or> evaluate b = - 10 \<or> isDraw b")
    case True
    then show ?thesis using evaluate_cases [of b] by (auto simp: minimax_terminal)
  next
    case False
    then have ev: "evaluate b = 0" and nd: "\<not> isDraw b"
      using evaluate_cases [of b] by auto
    from nd obtain r0 c0 where cell: "(r0, c0) \<in> set cells" "b r0 c0 = BLANK"
      by (auto simp: isDraw_iff)
    have child: "fst (minimax (put b r c v) m') \<in> {- 10, 0, 10}"
      if "(r, c) \<in> set cells" "b r c = BLANK" "v \<noteq> BLANK" for r c v m'
      using that by (intro less) (rule empties_put_less)
    show ?thesis
    proof (cases m)
      case True
      then have eq: "fst (minimax b m) = fst (max_loop b cells (- 1000))"
        using ev nd by (simp add: minimax_max)
      have "fst (minimax (put b r0 c0 AI) False) \<le> fst (max_loop b cells (- 1000))"
        using cell by (rule max_loop_ge)
      moreover have "fst (minimax (put b r0 c0 AI) False) \<in> {- 10, 0, 10}"
        using cell by (intro child) simp_all
      ultimately have "fst (max_loop b cells (- 1000)) \<noteq> - 1000" by auto
      with max_loop_cases [of b cells "- 1000"]
      obtain r c where "(r, c) \<in> set cells" "b r c = BLANK"
        "fst (max_loop b cells (- 1000)) = fst (minimax (put b r c AI) False)"
        by auto
      with child [of r c AI False] eq show ?thesis by simp
    next
      case False
      then have eq: "fst (minimax b m) = fst (min_loop b cells 1000)"
        using ev nd by (simp add: minimax_min)
      have "fst (min_loop b cells 1000) \<le> fst (minimax (put b r0 c0 PLAYER) True)"
        using cell by (rule min_loop_le)
      moreover have "fst (minimax (put b r0 c0 PLAYER) True) \<in> {- 10, 0, 10}"
        using cell by (intro child) simp_all
      ultimately have "fst (min_loop b cells 1000) \<noteq> 1000" by auto
      with min_loop_cases [of b cells 1000]
      obtain r c where "(r, c) \<in> set cells" "b r c = BLANK"
        "fst (min_loop b cells 1000) = fst (minimax (put b r c PLAYER) True)"
        by auto
      with child [of r c PLAYER True] eq show ?thesis by simp
    qed
  qed
qed

text \<open>
  C10. On every board and for either value of the flag, the score \<open>minimax\<close> returns is
  -10, 0 or 10: the initial values -1000 and 1000 of \<open>best\<close> are never returned, since a
  board on which the loops run has an empty cell, whose recursive score replaces them.
\<close>

theorem minimax_range: "fst (minimax b isMaximizing) \<in> {- 10, 0, 10}"
  by (rule minimax_range_aux)

section \<open>What the search of makeHardAIMove computes\<close>

lemma cells_inRange: "(r, c) \<in> set cells \<longleftrightarrow> inRange r c"
  unfolding cells_def inRange_def SIZE_def by (simp; presburger)

definition rowMajor :: "int \<times> int \<Rightarrow> int" where
  "rowMajor x = SIZE * fst x + snd x"

lemma cells_sorted: "sorted_wrt (\<lambda>x y. rowMajor x < rowMajor y) cells"
  by (simp add: cells_def rowMajor_def SIZE_def)

lemma sorted_wrt_before:
  assumes "sorted_wrt (\<lambda>x y. f x < (f y :: int)) (pre @ x # post)"
    and "y \<in> set (pre @ x # post)" and "f y < f x"
  shows "y \<in> set pre"
proof -
  from assms(1) have "\<forall>z \<in> set post. f x < f z"
    by (simp add: sorted_wrt_append)
  with assms(3) have "y \<notin> set post" by auto
  moreover from assms(3) have "y \<noteq> x" by auto
  ultimately show ?thesis using assms(2) by auto
qed

lemma cells_before:
  assumes "cells = pre @ x # post" "y \<in> set cells" "rowMajor y < rowMajor x"
  shows "y \<in> set pre"
proof (rule sorted_wrt_before)
  show "sorted_wrt (\<lambda>x y. rowMajor x < rowMajor y) (pre @ x # post)"
    using cells_sorted unfolding assms(1) .
  show "y \<in> set (pre @ x # post)" using assms(2) unfolding assms(1) .
  show "rowMajor y < rowMajor x" by fact
qed

text \<open>
  \<open>takes b cs bestVal res\<close>: scanning \<open>cs\<close> from \<open>bestVal\<close>, the search ends with the
  triple \<open>res\<close> of some empty cell of \<open>cs\<close> and its score, which exceeds \<open>bestVal\<close> and the
  score of every empty cell before it, and is not exceeded by any empty cell after it.
\<close>

definition takes :: "board \<Rightarrow> (int \<times> int) list \<Rightarrow> int \<Rightarrow> int \<times> int \<times> int \<Rightarrow> bool" where
  "takes b cs bestVal res \<longleftrightarrow>
     (\<exists>pre r c post.
        cs = pre @ (r, c) # post \<and> b r c = BLANK \<and>
        res = (fst (minimax (put b r c AI) False), r, c) \<and>
        bestVal < fst (minimax (put b r c AI) False) \<and>
        (\<forall>(r', c') \<in> set pre. b r' c' = BLANK \<longrightarrow>
           fst (minimax (put b r' c' AI) False) < fst (minimax (put b r c AI) False)) \<and>
        (\<forall>(r', c') \<in> set post. b r' c' = BLANK \<longrightarrow>
           fst (minimax (put b r' c' AI) False) \<le> fst (minimax (put b r c AI) False)))"

lemma takes_first:
  assumes "b r c = BLANK" "bestVal < fst (minimax (put b r c AI) False)"
    and "\<forall>(r', c') \<in> set cs. b r' c' = BLANK \<longrightarrow>
           fst (minimax (put b r' c' AI) False) \<le> fst (minimax (put b r c AI) False)"
  shows "takes b ((r, c) # cs) bestVal (fst (minimax (put b r c AI) False), r, c)"
  unfolding takes_def
proof (intro exI conjI)
  show "(r, c) # cs = [] @ (r, c) # cs" by simp
  show "\<forall>(r', c') \<in> set []. b r' c' = BLANK \<longrightarrow>
           fst (minimax (put b r' c' AI) False) < fst (minimax (put b r c AI) False)"
    by simp
qed (use assms in simp_all)

lemma takes_later:
  assumes "takes b cs v res" "bestVal \<le> v"
    and "b r0 c0 = BLANK \<longrightarrow> fst (minimax (put b r0 c0 AI) False) \<le> v"
  shows "takes b ((r0, c0) # cs) bestVal res"
proof -
  from assms(1) obtain pre r c post where t: "cs = pre @ (r, c) # post" "b r c = BLANK"
    "res = (fst (minimax (put b r c AI) False), r, c)"
    "v < fst (minimax (put b r c AI) False)"
    "\<forall>(r', c') \<in> set pre. b r' c' = BLANK \<longrightarrow>
       fst (minimax (put b r' c' AI) False) < fst (minimax (put b r c AI) False)"
    "\<forall>(r', c') \<in> set post. b r' c' = BLANK \<longrightarrow>
       fst (minimax (put b r' c' AI) False) \<le> fst (minimax (put b r c AI) False)"
    unfolding takes_def by blast
  show ?thesis
    unfolding takes_def
  proof (intro exI conjI)
    show "(r0, c0) # cs = ((r0, c0) # pre) @ (r, c) # post" using t(1) by simp
    show "\<forall>(r', c') \<in> set ((r0, c0) # pre). b r' c' = BLANK \<longrightarrow>
       fst (minimax (put b r' c' AI) False) < fst (minimax (put b r c AI) False)"
      using t(4,5) assms(3) by auto
    show "bestVal < fst (minimax (put b r c AI) False)" using t(4) assms(2) by simp
  qed (use t in simp_all)
qed

lemma makeHardAIMove_loop_spec:
  "(fst (makeHardAIMove_loop b cs bestVal bestRow bestCol) = (bestVal, bestRow, bestCol) \<and>
    (\<forall>(r, c) \<in> set cs. b r c = BLANK \<longrightarrow> fst (minimax (put b r c AI) False) \<le> bestVal))
   \<or> takes b cs bestVal (fst (makeHardAIMove_loop b cs bestVal bestRow bestCol))"
proof (induction cs arbitrary: bestVal bestRow bestCol)
  case Nil
  show ?case by simp
next
  case (Cons x cs)
  obtain r0 c0 where x: "x = (r0, c0)" by (cases x)
  let ?v = "fst (minimax (put b r0 c0 AI) False)"
  show ?case
    unfolding x
  proof (cases "b r0 c0 = BLANK \<and> ?v > bestVal")
    case True
    then have step: "makeHardAIMove_loop b ((r0, c0) # cs) bestVal bestRow bestCol
        = makeHardAIMove_loop b cs ?v r0 c0"
      by (simp add: Let_def put_put_BLANK)
    from Cons.IH [of ?v r0 c0] show "(fst (makeHardAIMove_loop b ((r0, c0) # cs) bestVal bestRow bestCol) = (bestVal, bestRow, bestCol) \<and>
        (\<forall>(r, c) \<in> set ((r0, c0) # cs). b r c = BLANK \<longrightarrow> fst (minimax (put b r c AI) False) \<le> bestVal))
      \<or> takes b ((r0, c0) # cs) bestVal (fst (makeHardAIMove_loop b ((r0, c0) # cs) bestVal bestRow bestCol))"
    proof
      assume "fst (makeHardAIMove_loop b cs ?v r0 c0) = (?v, r0, c0) \<and>
        (\<forall>(r, c) \<in> set cs. b r c = BLANK \<longrightarrow> fst (minimax (put b r c AI) False) \<le> ?v)"
      with True takes_first [of b r0 c0 bestVal cs]
      have "takes b ((r0, c0) # cs) bestVal (fst (makeHardAIMove_loop b ((r0, c0) # cs) bestVal bestRow bestCol))"
        unfolding step by simp
      then show ?thesis ..
    next
      assume "takes b cs ?v (fst (makeHardAIMove_loop b cs ?v r0 c0))"
      then have "takes b ((r0, c0) # cs) bestVal (fst (makeHardAIMove_loop b cs ?v r0 c0))"
        using True by (intro takes_later [where v = ?v]) simp_all
      then show ?thesis unfolding step ..
    qed
  next
    case False
    then have step: "makeHardAIMove_loop b ((r0, c0) # cs) bestVal bestRow bestCol
        = makeHardAIMove_loop b cs bestVal bestRow bestCol"
      by (auto simp: Let_def put_put_BLANK)
    from False have le: "b r0 c0 = BLANK \<longrightarrow> ?v \<le> bestVal" by auto
    from Cons.IH [of bestVal bestRow bestCol] show "(fst (makeHardAIMove_loop b ((r0, c0) # cs) bestVal bestRow bestCol) = (bestVal, bestRow, bestCol) \<and>
        (\<forall>(r, c) \<in> set ((r0, c0) # cs). b r c = BLANK \<longrightarrow> fst (minimax (put b r c AI) False) \<le> bestVal))
      \<or> takes b ((r0, c0) # cs) bestVal (fst (makeHardAIMove_loop b ((r0, c0) # cs) bestVal bestRow bestCol))"
    proof
      assume "fst (makeHardAIMove_loop b cs bestVal bestRow bestCol) = (bestVal, bestRow, bestCol) \<and>
        (\<forall>(r, c) \<in> set cs. b r c = BLANK \<longrightarrow> fst (minimax (put b r c AI) False) \<le> bestVal)"
      with le show ?thesis unfolding step by simp
    next
      assume "takes b cs bestVal (fst (makeHardAIMove_loop b cs bestVal bestRow bestCol))"
      then have "takes b ((r0, c0) # cs) bestVal (fst (makeHardAIMove_loop b cs bestVal bestRow bestCol))"
        using le by (intro takes_later [where v = bestVal]) simp_all
      then show ?thesis unfolding step ..
    qed
  qed
qed

lemma makeHardAIMove_search_spec:
  assumes "\<not> isDraw b"
  shows "\<exists>r c. (r, c) \<in> set cells \<and> b r c = BLANK \<and>
           makeHardAIMove_search b = ((fst (minimax (put b r c AI) False), r, c), b) \<and>
           (\<forall>(r', c') \<in> set cells. b r' c' = BLANK \<longrightarrow>
              fst (minimax (put b r' c' AI) False) \<le> fst (minimax (put b r c AI) False) \<and>
              (rowMajor (r', c') < rowMajor (r, c) \<longrightarrow>
                 fst (minimax (put b r' c' AI) False) < fst (minimax (put b r c AI) False)))"
proof -
  let ?sc = "\<lambda>r c. fst (minimax (put b r c AI) False)"
  from assms obtain r0 c0 where cell: "(r0, c0) \<in> set cells" "b r0 c0 = BLANK"
    by (auto simp: isDraw_iff)
  have "- 1000 < ?sc r0 c0" using minimax_range_aux [of "put b r0 c0 AI" False] by auto
  with cell have "\<not> (\<forall>(r, c) \<in> set cells. b r c = BLANK \<longrightarrow> ?sc r c \<le> - 1000)"
    by fastforce
  with makeHardAIMove_loop_spec [of b cells "- 1000" "- 1" "- 1"]
  have "takes b cells (- 1000) (fst (makeHardAIMove_loop b cells (- 1000) (- 1) (- 1)))"
    by blast
  then obtain pre r c post where t: "cells = pre @ (r, c) # post" "b r c = BLANK"
    "fst (makeHardAIMove_loop b cells (- 1000) (- 1) (- 1)) = (?sc r c, r, c)"
    "\<forall>(r', c') \<in> set pre. b r' c' = BLANK \<longrightarrow> ?sc r' c' < ?sc r c"
    "\<forall>(r', c') \<in> set post. b r' c' = BLANK \<longrightarrow> ?sc r' c' \<le> ?sc r c"
    unfolding takes_def by blast
  have mem: "(r, c) \<in> set cells" by (subst t(1)) simp
  have res: "makeHardAIMove_search b = ((?sc r c, r, c), b)"
    unfolding makeHardAIMove_search_def using t(3)
    by (simp add: prod_eq_iff)
  have best: "?sc r' c' \<le> ?sc r c \<and> (rowMajor (r', c') < rowMajor (r, c) \<longrightarrow> ?sc r' c' < ?sc r c)"
    if y: "(r', c') \<in> set cells" "b r' c' = BLANK" for r' c'
  proof
    have "set cells = set pre \<union> {(r, c)} \<union> set post" by (subst t(1)) simp
    with y(1) have "(r', c') \<in> set pre \<or> (r', c') = (r, c) \<or> (r', c') \<in> set post"
      by blast
    with t(4,5) y(2) show "?sc r' c' \<le> ?sc r c" by fastforce
    show "rowMajor (r', c') < rowMajor (r, c) \<longrightarrow> ?sc r' c' < ?sc r c"
    proof
      assume "rowMajor (r', c') < rowMajor (r, c)"
      with t(1) y(1) have "(r', c') \<in> set pre" by (rule cells_before)
      with t(4) y(2) show "?sc r' c' < ?sc r c" by fastforce
    qed
  qed
  from mem t(2) res best show ?thesis by blast
qed

lemma makeHardAIMove_placement:
  assumes "makeHardAIMove_search b = ((v, r, c), b)" "(r, c) \<in> set cells"
  shows "makeHardAIMove b = Inr (put b r c AI)"
  using assms by (simp add: makeHardAIMove_def cells_inRange inRange_def)

lemma makeHardAIMove_loop_full:
  "\<forall>(r, c) \<in> set cs. b r c \<noteq> BLANK \<Longrightarrow>
   makeHardAIMove_loop b cs bestVal bestRow bestCol = ((bestVal, bestRow, bestCol), b)"
  by (induction cs) auto

lemma makeHardAIMove_search_full:
  "isDraw b \<Longrightarrow> makeHardAIMove_search b = ((- 1000, - 1, - 1), b)"
  by (simp add: makeHardAIMove_search_def makeHardAIMove_loop_full isDraw_iff)

section \<open>Concrete boards\<close>

text \<open>
  \<open>boardOf\<close> writes a board by its nine cells in row-major order. On such a board a
  read, a write and the checks of \<open>checkWinner\<close> and \<open>isDraw\<close> are one rewrite step
  each, which is how the concrete boards below are evaluated.
\<close>

definition boardOf ::
  "char \<Rightarrow> char \<Rightarrow> char \<Rightarrow> char \<Rightarrow> char \<Rightarrow> char \<Rightarrow> char \<Rightarrow> char \<Rightarrow> char \<Rightarrow> board" where
  "boardOf a0 a1 a2 a3 a4 a5 a6 a7 a8 =
     put (put (put (put (put (put (put (put (put emptyBoard 0 0 a0) 0 1 a1) 0 2 a2)
       1 0 a3) 1 1 a4) 1 2 a5) 2 0 a6) 2 1 a7) 2 2 a8"

lemma emptyBoard_boardOf:
  "emptyBoard = boardOf BLANK BLANK BLANK BLANK BLANK BLANK BLANK BLANK BLANK"
  by (auto simp: boardOf_def emptyBoard_def put_apply fun_eq_iff)

lemma boardOf_get:
  "boardOf a0 a1 a2 a3 a4 a5 a6 a7 a8 0 0 = a0"
  "boardOf a0 a1 a2 a3 a4 a5 a6 a7 a8 0 1 = a1"
  "boardOf a0 a1 a2 a3 a4 a5 a6 a7 a8 0 2 = a2"
  "boardOf a0 a1 a2 a3 a4 a5 a6 a7 a8 1 0 = a3"
  "boardOf a0 a1 a2 a3 a4 a5 a6 a7 a8 1 1 = a4"
  "boardOf a0 a1 a2 a3 a4 a5 a6 a7 a8 1 2 = a5"
  "boardOf a0 a1 a2 a3 a4 a5 a6 a7 a8 2 0 = a6"
  "boardOf a0 a1 a2 a3 a4 a5 a6 a7 a8 2 1 = a7"
  "boardOf a0 a1 a2 a3 a4 a5 a6 a7 a8 2 2 = a8"
  by (simp_all add: boardOf_def put_apply)

lemma boardOf_put:
  "put (boardOf a0 a1 a2 a3 a4 a5 a6 a7 a8) 0 0 v = boardOf v a1 a2 a3 a4 a5 a6 a7 a8"
  "put (boardOf a0 a1 a2 a3 a4 a5 a6 a7 a8) 0 1 v = boardOf a0 v a2 a3 a4 a5 a6 a7 a8"
  "put (boardOf a0 a1 a2 a3 a4 a5 a6 a7 a8) 0 2 v = boardOf a0 a1 v a3 a4 a5 a6 a7 a8"
  "put (boardOf a0 a1 a2 a3 a4 a5 a6 a7 a8) 1 0 v = boardOf a0 a1 a2 v a4 a5 a6 a7 a8"
  "put (boardOf a0 a1 a2 a3 a4 a5 a6 a7 a8) 1 1 v = boardOf a0 a1 a2 a3 v a5 a6 a7 a8"
  "put (boardOf a0 a1 a2 a3 a4 a5 a6 a7 a8) 1 2 v = boardOf a0 a1 a2 a3 a4 v a6 a7 a8"
  "put (boardOf a0 a1 a2 a3 a4 a5 a6 a7 a8) 2 0 v = boardOf a0 a1 a2 a3 a4 a5 v a7 a8"
  "put (boardOf a0 a1 a2 a3 a4 a5 a6 a7 a8) 2 1 v = boardOf a0 a1 a2 a3 a4 a5 a6 v a8"
  "put (boardOf a0 a1 a2 a3 a4 a5 a6 a7 a8) 2 2 v = boardOf a0 a1 a2 a3 a4 a5 a6 a7 v"
  by (auto simp: boardOf_def put_apply fun_eq_iff)

lemma checkWinner_unrolled:
  "checkWinner b =
    (if b 0 0 \<noteq> BLANK \<and> b 0 0 = b 0 1 \<and> b 0 1 = b 0 2 then b 0 0
     else if b 1 0 \<noteq> BLANK \<and> b 1 0 = b 1 1 \<and> b 1 1 = b 1 2 then b 1 0
     else if b 2 0 \<noteq> BLANK \<and> b 2 0 = b 2 1 \<and> b 2 1 = b 2 2 then b 2 0
     else if b 0 0 \<noteq> BLANK \<and> b 0 0 = b 1 0 \<and> b 1 0 = b 2 0 then b 0 0
     else if b 0 1 \<noteq> BLANK \<and> b 0 1 = b 1 1 \<and> b 1 1 = b 2 1 then b 0 1
     else if b 0 2 \<noteq> BLANK \<and> b 0 2 = b 1 2 \<and> b 1 2 = b 2 2 then b 0 2
     else if b 0 0 \<noteq> BLANK \<and> b 0 0 = b 1 1 \<and> b 1 1 = b 2 2 then b 0 0
     else if b 0 2 \<noteq> BLANK \<and> b 0 2 = b 1 1 \<and> b 1 1 = b 2 0 then b 0 2
     else BLANK)"
  unfolding checkWinner_def
  by (simp only: checkRows.simps checkCols.simps option.case
        if_distrib [of "case_option n s" for n s])

lemma boardOf_checkWinner:
  "checkWinner (boardOf a0 a1 a2 a3 a4 a5 a6 a7 a8) =
    (if a0 \<noteq> BLANK \<and> a0 = a1 \<and> a1 = a2 then a0
     else if a3 \<noteq> BLANK \<and> a3 = a4 \<and> a4 = a5 then a3
     else if a6 \<noteq> BLANK \<and> a6 = a7 \<and> a7 = a8 then a6
     else if a0 \<noteq> BLANK \<and> a0 = a3 \<and> a3 = a6 then a0
     else if a1 \<noteq> BLANK \<and> a1 = a4 \<and> a4 = a7 then a1
     else if a2 \<noteq> BLANK \<and> a2 = a5 \<and> a5 = a8 then a2
     else if a0 \<noteq> BLANK \<and> a0 = a4 \<and> a4 = a8 then a0
     else if a2 \<noteq> BLANK \<and> a2 = a4 \<and> a4 = a6 then a2
     else BLANK)"
  by (simp only: checkWinner_unrolled boardOf_get)

lemma boardOf_isDraw:
  "isDraw (boardOf a0 a1 a2 a3 a4 a5 a6 a7 a8) \<longleftrightarrow>
    a0 \<noteq> BLANK \<and> a1 \<noteq> BLANK \<and> a2 \<noteq> BLANK \<and> a3 \<noteq> BLANK \<and> a4 \<noteq> BLANK \<and>
    a5 \<noteq> BLANK \<and> a6 \<noteq> BLANK \<and> a7 \<noteq> BLANK \<and> a8 \<noteq> BLANK"
  by (simp add: isDraw_def cells_def boardOf_get)

lemmas boardOf_eval = boardOf_checkWinner boardOf_isDraw boardOf_get boardOf_put

lemma isDraw_iff_inRange: "isDraw b \<longleftrightarrow> (\<forall>r c. inRange r c \<longrightarrow> b r c \<noteq> BLANK)"
  by (auto simp: isDraw_iff cells_inRange [symmetric])

section \<open>The move of the Hard strategy\<close>

lemmas minimax_eval = minimax.simps evaluate_def Let_def cells_def boardOf_eval

lemma inRange_simps [simp]:
  "inRange 0 0" "inRange 0 1" "inRange 0 2" "inRange 1 0" "inRange 1 1" "inRange 1 2"
  "inRange 2 0" "inRange 2 1" "inRange 2 2"
  by (simp_all add: inRange_def SIZE_def)

lemma inRange_cases:
  "inRange r c \<longleftrightarrow>
     (r, c) \<in> {(0, 0), (0, 1), (0, 2), (1, 0), (1, 1), (1, 2), (2, 0), (2, 1), (2, 2)}"
  using cells_inRange [of r c] by (simp add: cells_def)

text \<open>
  C4. On a board that is not over, the search of \<open>makeHardAIMove\<close> ends with an empty
  cell \<open>(r, c)\<close> and its score \<open>minimax\<close> with \<open>isMaximizing = false\<close> after the trial
  placement; no empty cell scores higher, and every empty cell before \<open>(r, c)\<close> in
  row-major order scores strictly lower. So among the cells of the best score the first in
  row-major order is taken, and \<open>makeHardAIMove\<close> places the mark there.
\<close>

theorem hard_tie_break:
  assumes "\<not> gameOver b"
  shows "\<exists>r c. inRange r c \<and> b r c = BLANK \<and>
           makeHardAIMove_search b = ((fst (minimax (put b r c AI) False), r, c), b) \<and>
           makeHardAIMove b = Inr (put b r c AI) \<and>
           (\<forall>r' c'. inRange r' c' \<and> b r' c' = BLANK \<longrightarrow>
              fst (minimax (put b r' c' AI) False) \<le> fst (minimax (put b r c AI) False) \<and>
              (SIZE * r' + c' < SIZE * r + c \<longrightarrow>
                 fst (minimax (put b r' c' AI) False) < fst (minimax (put b r c AI) False)))"
proof -
  from assms have "\<not> isDraw b" by (simp add: gameOver_def)
  from makeHardAIMove_search_spec [OF this]
  obtain r c where s: "(r, c) \<in> set cells" "b r c = BLANK"
    "makeHardAIMove_search b = ((fst (minimax (put b r c AI) False), r, c), b)"
    "\<forall>(r', c') \<in> set cells. b r' c' = BLANK \<longrightarrow>
        fst (minimax (put b r' c' AI) False) \<le> fst (minimax (put b r c AI) False) \<and>
        (rowMajor (r', c') < rowMajor (r, c) \<longrightarrow>
           fst (minimax (put b r' c' AI) False) < fst (minimax (put b r c AI) False))"
    by blast
  have "inRange r c" using s(1) by (simp add: cells_inRange)
  moreover have "makeHardAIMove b = Inr (put b r c AI)"
    using s(3,1) by (rule makeHardAIMove_placement)
  moreover have "\<forall>r' c'. inRange r' c' \<and> b r' c' = BLANK \<longrightarrow>
      fst (minimax (put b r' c' AI) False) \<le> fst (minimax (put b r c AI) False) \<and>
      (SIZE * r' + c' < SIZE * r + c \<longrightarrow>
         fst (minimax (put b r' c' AI) False) < fst (minimax (put b r c AI) False))"
    using s(4) by (auto simp: cells_inRange [symmetric] rowMajor_def)
  ultimately show ?thesis using s(2,3) by blast
qed

theorem hard_tie_break_witness:
  "\<not> gameOver (boardOf BLANK BLANK BLANK PLAYER AI PLAYER AI AI PLAYER) \<and>
   fst (minimax (boardOf AI BLANK BLANK PLAYER AI PLAYER AI AI PLAYER) False) = - 10 \<and>
   fst (minimax (boardOf BLANK AI BLANK PLAYER AI PLAYER AI AI PLAYER) False) = 10 \<and>
   fst (minimax (boardOf BLANK BLANK AI PLAYER AI PLAYER AI AI PLAYER) False) = 10 \<and>
   makeHardAIMove (boardOf BLANK BLANK BLANK PLAYER AI PLAYER AI AI PLAYER)
     = Inr (boardOf BLANK AI BLANK PLAYER AI PLAYER AI AI PLAYER)"
proof -
  let ?b = "boardOf BLANK BLANK BLANK PLAYER AI PLAYER AI AI PLAYER"
  have h: "\<not> gameOver ?b" by (simp add: gameOver_def boardOf_eval)
  have s0: "fst (minimax (put ?b 0 0 AI) False) = - 10" by (simp add: minimax_eval)
  have s1: "fst (minimax (put ?b 0 1 AI) False) = 10" by (simp add: minimax_eval)
  have s2: "fst (minimax (put ?b 0 2 AI) False) = 10" by (simp add: minimax_eval)
  from hard_tie_break [OF h] obtain r c where m: "inRange r c" "?b r c = BLANK"
    "makeHardAIMove ?b = Inr (put ?b r c AI)"
    "\<forall>r' c'. inRange r' c' \<and> ?b r' c' = BLANK \<longrightarrow>
        fst (minimax (put ?b r' c' AI) False) \<le> fst (minimax (put ?b r c AI) False) \<and>
        (SIZE * r' + c' < SIZE * r + c \<longrightarrow>
           fst (minimax (put ?b r' c' AI) False) < fst (minimax (put ?b r c AI) False))"
    by blast
  have in01: "inRange 0 1" "?b 0 1 = BLANK" by (simp_all add: inRange_def SIZE_def boardOf_eval)
  from m(4) in01 have le: "fst (minimax (put ?b 0 1 AI) False) \<le> fst (minimax (put ?b r c AI) False)"
    and lt: "SIZE * 0 + 1 < SIZE * r + c \<longrightarrow>
       fst (minimax (put ?b 0 1 AI) False) < fst (minimax (put ?b r c AI) False)"
    by blast+
  from m(1,2) have "(r, c) = (0, 0) \<or> (r, c) = (0, 1) \<or> (r, c) = (0, 2)"
    by (auto simp: inRange_cases boardOf_eval)
  then have "(r, c) = (0, 1)"
  proof (elim disjE)
    assume "(r, c) = (0, 0)"
    with le s0 s1 show ?thesis by simp
  next
    assume "(r, c) = (0, 2)"
    with lt s1 s2 show ?thesis by (simp add: SIZE_def)
  qed
  with m(3) have "makeHardAIMove ?b = Inr (put ?b 0 1 AI)" by simp
  with h s0 s1 s2 show ?thesis by (simp add: boardOf_eval)
qed

text \<open>
  C7. On a board with an empty cell the search of \<open>makeHardAIMove\<close> ends with
  \<open>bestRow\<close> and \<open>bestCol\<close> within range and naming a cell that is empty, so the final
  placement is within the array and the call returns the board with that cell marked. On a
  board with no empty cell the search leaves -1 in both, and the placement is out of
  range: the error branch is taken only when the precondition is broken.
\<close>

theorem hard_move_in_bounds:
  "((\<exists>r c. inRange r c \<and> b r c = BLANK) \<longrightarrow>
      (\<exists>bestVal bestRow bestCol.
         makeHardAIMove_search b = ((bestVal, bestRow, bestCol), b) \<and>
         inRange bestRow bestCol \<and> b bestRow bestCol = BLANK \<and>
         makeHardAIMove b = Inr (put b bestRow bestCol AI))) \<and>
   (\<not> (\<exists>r c. inRange r c \<and> b r c = BLANK) \<longrightarrow>
      makeHardAIMove_search b = ((- 1000, - 1, - 1), b) \<and>
      makeHardAIMove b = Inl OutOfRange)"
proof (intro conjI impI)
  assume "\<exists>r c. inRange r c \<and> b r c = BLANK"
  then have "\<not> isDraw b" by (auto simp: isDraw_iff_inRange)
  from makeHardAIMove_search_spec [OF this]
  obtain r c where s: "(r, c) \<in> set cells" "b r c = BLANK"
    "makeHardAIMove_search b = ((fst (minimax (put b r c AI) False), r, c), b)"
    by blast
  have "inRange r c" using s(1) by (simp add: cells_inRange)
  moreover have "makeHardAIMove b = Inr (put b r c AI)"
    using s(3,1) by (rule makeHardAIMove_placement)
  ultimately show "\<exists>bestVal bestRow bestCol.
         makeHardAIMove_search b = ((bestVal, bestRow, bestCol), b) \<and>
         inRange bestRow bestCol \<and> b bestRow bestCol = BLANK \<and>
         makeHardAIMove b = Inr (put b bestRow bestCol AI)"
    using s(2,3) by blast
next
  assume "\<not> (\<exists>r c. inRange r c \<and> b r c = BLANK)"
  then have "isDraw b" by (auto simp: isDraw_iff_inRange)
  then show "makeHardAIMove_search b = ((- 1000, - 1, - 1), b)"
    by (rule makeHardAIMove_search_full)
  then show "makeHardAIMove b = Inl OutOfRange"
    by (simp add: makeHardAIMove_def)
qed

theorem hard_move_in_bounds_witness:
  "(\<exists>r c. inRange r c \<and> boardOf BLANK BLANK BLANK PLAYER AI PLAYER AI AI PLAYER r c = BLANK) \<and>
   makeHardAIMove_search (boardOf BLANK BLANK BLANK PLAYER AI PLAYER AI AI PLAYER)
     = ((10, 0, 1), boardOf BLANK BLANK BLANK PLAYER AI PLAYER AI AI PLAYER) \<and>
   inRange 0 1 \<and> boardOf BLANK BLANK BLANK PLAYER AI PLAYER AI AI PLAYER 0 1 = BLANK \<and>
   makeHardAIMove (boardOf BLANK BLANK BLANK PLAYER AI PLAYER AI AI PLAYER)
     = Inr (boardOf BLANK AI BLANK PLAYER AI PLAYER AI AI PLAYER) \<and>
   \<not> (\<exists>r c. inRange r c \<and> boardOf PLAYER AI PLAYER PLAYER AI AI AI PLAYER PLAYER r c = BLANK) \<and>
   makeHardAIMove_search (boardOf PLAYER AI PLAYER PLAYER AI AI AI PLAYER PLAYER)
     = ((- 1000, - 1, - 1), boardOf PLAYER AI PLAYER PLAYER AI AI AI PLAYER PLAYER) \<and>
   makeHardAIMove (boardOf PLAYER AI PLAYER PLAYER AI AI AI PLAYER PLAYER) = Inl OutOfRange"
proof -
  let ?b = "boardOf BLANK BLANK BLANK PLAYER AI PLAYER AI AI PLAYER"
  let ?full = "boardOf PLAYER AI PLAYER PLAYER AI AI AI PLAYER PLAYER"
  have "inRange 0 0 \<and> ?b 0 0 = BLANK" by (simp add: boardOf_eval)
  then have h: "\<exists>r c. inRange r c \<and> ?b r c = BLANK" by blast
  have search: "makeHardAIMove_search ?b = ((10, 0, 1), ?b)"
    by (simp add: makeHardAIMove_search_def minimax_eval)
  have "isDraw ?full" by (simp add: boardOf_eval)
  then have f: "\<not> (\<exists>r c. inRange r c \<and> ?full r c = BLANK)"
    by (simp add: isDraw_iff_inRange)
  from hard_move_in_bounds [of ?b] h search
  have "inRange 0 1 \<and> ?b 0 1 = BLANK \<and> makeHardAIMove ?b = Inr (put ?b 0 1 AI)"
    by auto
  moreover from hard_move_in_bounds [of ?full] f
  have "makeHardAIMove_search ?full = ((- 1000, - 1, - 1), ?full) \<and>
        makeHardAIMove ?full = Inl OutOfRange"
    by blast
  ultimately show ?thesis using h search f by (simp add: boardOf_eval)
qed

section \<open>isDraw and the winner\<close>

text \<open>
  C2 (as the code has it). \<open>isDraw\<close> looks at the cells only: it returns true exactly
  when no cell within range is empty. On a board on which \<open>checkWinner\<close> reports no
  winner, which is where \<open>playGame\<close> and \<open>minimax\<close> call it, this is the same as: no empty
  cell and no winner.
\<close>

theorem isDraw_no_empty_cell:
  "(isDraw b \<longleftrightarrow> \<not> (\<exists>r c. inRange r c \<and> b r c = BLANK)) \<and>
   (checkWinner b = BLANK \<longrightarrow>
      (isDraw b \<longleftrightarrow> \<not> (\<exists>r c. inRange r c \<and> b r c = BLANK) \<and> checkWinner b = BLANK))"
  by (auto simp: isDraw_iff_inRange)

theorem isDraw_no_empty_cell_witness:
  "checkWinner (boardOf PLAYER AI PLAYER PLAYER AI AI AI PLAYER PLAYER) = BLANK \<and>
   isDraw (boardOf PLAYER AI PLAYER PLAYER AI AI AI PLAYER PLAYER) \<and>
   \<not> (\<exists>r c. inRange r c \<and> boardOf PLAYER AI PLAYER PLAYER AI AI AI PLAYER PLAYER r c = BLANK)"
proof -
  let ?b = "boardOf PLAYER AI PLAYER PLAYER AI AI AI PLAYER PLAYER"
  have w: "checkWinner ?b = BLANK" by (simp add: boardOf_eval)
  have d: "isDraw ?b" by (simp add: boardOf_eval)
  from isDraw_no_empty_cell [of ?b] w d show ?thesis by blast
qed

text \<open>
  The claim as stated fails on a full board with a winning line: on
  \<open>X X X / O O X / O X O\<close> the winner is the Player and \<open>isDraw\<close> is true.
\<close>

theorem isDraw_full_board_with_winner:
  "\<not> (isDraw (boardOf PLAYER PLAYER PLAYER AI AI PLAYER AI PLAYER AI) \<longleftrightarrow>
       \<not> (\<exists>r c. inRange r c \<and> boardOf PLAYER PLAYER PLAYER AI AI PLAYER AI PLAYER AI r c = BLANK) \<and>
       checkWinner (boardOf PLAYER PLAYER PLAYER AI AI PLAYER AI PLAYER AI) = BLANK)"
  by (simp add: boardOf_eval)

section \<open>evaluate on the mirrored board\<close>

text \<open>The mirrored board: the two marks swapped, every other cell value kept.\<close>

definition swapMark :: "char \<Rightarrow> char" where
  "swapMark x = (if x = PLAYER then AI else if x = AI then PLAYER else x)"

definition mirror :: "board \<Rightarrow> board" where
  "mirror b = (\<lambda>r c. swapMark (b r c))"

lemma swapMark_eq_iff [simp]: "swapMark x = swapMark y \<longleftrightarrow> x = y"
  by (auto simp: swapMark_def)

lemma swapMark_BLANK_iff [simp]: "swapMark x = BLANK \<longleftrightarrow> x = BLANK"
  by (auto simp: swapMark_def)

lemma swapMark_BLANK [simp]: "swapMark BLANK = BLANK"
  by (simp add: swapMark_def)

lemma mirror_apply: "mirror b r c = swapMark (b r c)"
  by (simp add: mirror_def)

lemma checkWinner_mirror: "checkWinner (mirror b) = swapMark (checkWinner b)"
  by (simp only: checkWinner_unrolled [of "mirror b"] checkWinner_unrolled [of b] mirror_apply
        swapMark_eq_iff swapMark_BLANK_iff swapMark_BLANK if_distrib [of swapMark])

text \<open>
  C9. On a board on which the Player has won, \<open>evaluate\<close> is -10, and on the mirrored
  board, on which the Opponent has won, it is 10: the one is the negation of the other.
\<close>

theorem evaluate_mirror:
  assumes "checkWinner b = PLAYER"
  shows "checkWinner (mirror b) = AI \<and> evaluate b = - 10 \<and> evaluate (mirror b) = 10 \<and>
         evaluate b = - evaluate (mirror b)"
  using assms by (simp add: evaluate_def checkWinner_mirror swapMark_def)

theorem evaluate_mirror_witness:
  "checkWinner (boardOf PLAYER PLAYER PLAYER AI AI BLANK BLANK BLANK BLANK) = PLAYER \<and>
   mirror (boardOf PLAYER PLAYER PLAYER AI AI BLANK BLANK BLANK BLANK) 0 0 = AI \<and>
   mirror (boardOf PLAYER PLAYER PLAYER AI AI BLANK BLANK BLANK BLANK) 1 0 = PLAYER \<and>
   mirror (boardOf PLAYER PLAYER PLAYER AI AI BLANK BLANK BLANK BLANK) 2 2 = BLANK \<and>
   evaluate (boardOf PLAYER PLAYER PLAYER AI AI BLANK BLANK BLANK BLANK) = - 10 \<and>
   evaluate (mirror (boardOf PLAYER PLAYER PLAYER AI AI BLANK BLANK BLANK BLANK)) = 10"
proof -
  let ?b = "boardOf PLAYER PLAYER PLAYER AI AI BLANK BLANK BLANK BLANK"
  have w: "checkWinner ?b = PLAYER" by (simp add: boardOf_eval)
  have m: "mirror ?b 0 0 = AI" "mirror ?b 1 0 = PLAYER" "mirror ?b 2 2 = BLANK"
    by (simp_all add: mirror_apply swapMark_def boardOf_eval)
  from evaluate_mirror [OF w] w m show ?thesis by simp
qed

section \<open>The winner of a board reached by legal play\<close>

text \<open>
  The eight lines of three cells, in the order in which \<open>checkWinner\<close> tests them.
  \<open>checkWinnerIn\<close> is \<open>checkWinner\<close> with the lines tested in a given order.
\<close>

type_synonym line = "(int \<times> int) \<times> (int \<times> int) \<times> (int \<times> int)"

definition winLines :: "line list" where
  "winLines =
     [((0, 0), (0, 1), (0, 2)), ((1, 0), (1, 1), (1, 2)), ((2, 0), (2, 1), (2, 2)),
      ((0, 0), (1, 0), (2, 0)), ((0, 1), (1, 1), (2, 1)), ((0, 2), (1, 2), (2, 2)),
      ((0, 0), (1, 1), (2, 2)), ((0, 2), (1, 1), (2, 0))]"

definition cell :: "board \<Rightarrow> int \<times> int \<Rightarrow> char" where
  "cell b p = b (fst p) (snd p)"

fun lineOf :: "board \<Rightarrow> char \<Rightarrow> line \<Rightarrow> bool" where
  "lineOf b m (p, q, s) \<longleftrightarrow> cell b p = m \<and> cell b q = m \<and> cell b s = m"

definition hasLine :: "board \<Rightarrow> char \<Rightarrow> bool" where
  "hasLine b m \<longleftrightarrow> (\<exists>l \<in> set winLines. lineOf b m l)"

fun checkWinnerIn :: "board \<Rightarrow> line list \<Rightarrow> char" where
  "checkWinnerIn b [] = BLANK"
| "checkWinnerIn b ((p, q, s) # ls) =
     (if cell b p \<noteq> BLANK \<and> cell b p = cell b q \<and> cell b q = cell b s then cell b p
      else checkWinnerIn b ls)"

lemma checkWinner_winLines: "checkWinner b = checkWinnerIn b winLines"
  by (simp only: checkWinner_unrolled winLines_def checkWinnerIn.simps cell_def fst_conv snd_conv)

lemma checkWinnerIn_BLANK_iff:
  "checkWinnerIn b ls = BLANK \<longleftrightarrow> (\<forall>l \<in> set ls. \<forall>m. m \<noteq> BLANK \<longrightarrow> \<not> lineOf b m l)"
proof (induction ls)
  case Nil
  show ?case by simp
next
  case (Cons l ls)
  obtain p q s where l: "l = (p, q, s)" by (cases l)
  show ?case unfolding l using Cons.IH by auto
qed

lemma checkWinnerIn_line:
  "checkWinnerIn b ls \<noteq> BLANK \<Longrightarrow> \<exists>l \<in> set ls. lineOf b (checkWinnerIn b ls) l"
proof (induction ls)
  case Nil
  then show ?case by simp
next
  case (Cons l ls)
  obtain p q s where l: "l = (p, q, s)" by (cases l)
  show ?case
  proof (cases "cell b p \<noteq> BLANK \<and> cell b p = cell b q \<and> cell b q = cell b s")
    case True
    have "checkWinnerIn b ((p, q, s) # ls) = cell b p"
      unfolding checkWinnerIn.simps by (rule if_P [OF True])
    moreover from True have "lineOf b (cell b p) (p, q, s)" by auto
    ultimately show ?thesis unfolding l by simp
  next
    case False
    have "checkWinnerIn b ((p, q, s) # ls) = checkWinnerIn b ls"
      unfolding checkWinnerIn.simps by (rule if_not_P [OF False])
    with Cons show ?thesis unfolding l by auto
  qed
qed

text \<open>All the lines filled by a mark are filled by the same mark.\<close>

definition oneMark :: "board \<Rightarrow> bool" where
  "oneMark b \<longleftrightarrow>
     (\<exists>m. \<forall>l \<in> set winLines. \<forall>m'. m' \<noteq> BLANK \<and> lineOf b m' l \<longrightarrow> m' = m)"

lemma oneMark_order:
  assumes "oneMark b" "set ls = set winLines"
  shows "checkWinnerIn b ls = checkWinner b"
proof (cases "checkWinnerIn b ls = BLANK")
  case True
  then have "checkWinnerIn b winLines = BLANK"
    unfolding checkWinnerIn_BLANK_iff assms(2) .
  with True show ?thesis by (simp add: checkWinner_winLines)
next
  case False
  then have "checkWinnerIn b winLines \<noteq> BLANK"
    unfolding checkWinnerIn_BLANK_iff assms(2) .
  from checkWinnerIn_line [OF False] checkWinnerIn_line [OF this] assms False this
  show ?thesis unfolding oneMark_def checkWinner_winLines by metis
qed

lemma oneMark_hasLine:
  assumes "oneMark b" "m \<noteq> BLANK"
  shows "hasLine b m \<longleftrightarrow> checkWinner b = m"
proof
  assume "hasLine b m"
  then obtain l where l: "l \<in> set winLines" "lineOf b m l" by (auto simp: hasLine_def)
  with assms(2) have ne: "checkWinnerIn b winLines \<noteq> BLANK"
    unfolding checkWinnerIn_BLANK_iff by blast
  from checkWinnerIn_line [OF ne] l assms ne
  show "checkWinner b = m" unfolding oneMark_def checkWinner_winLines by metis
next
  assume "checkWinner b = m"
  with assms(2) checkWinnerIn_line [of b winLines] show "hasLine b m"
    by (auto simp: hasLine_def checkWinner_winLines)
qed

lemma oneMark_emptyBoard: "oneMark emptyBoard"
  by (auto simp: oneMark_def winLines_def emptyBoard_def cell_def)

lemma cell_put: "cell (put b r c m) p = (if p = (r, c) then m else cell b p)"
  by (cases p) (simp add: cell_def put_apply)

lemma lineOf_put: "lineOf (put b r c m) m' l \<Longrightarrow> m' = m \<or> lineOf b m' l"
  by (cases l) (auto simp: cell_put split: if_splits)

lemma oneMark_put:
  assumes "checkWinner b = BLANK"
  shows "oneMark (put b r c m)"
  unfolding oneMark_def
proof (intro exI ballI allI impI)
  fix l m'
  assume l: "l \<in> set winLines" and m': "m' \<noteq> BLANK \<and> lineOf (put b r c m) m' l"
  from assms l m' have "\<not> lineOf b m' l"
    unfolding checkWinner_winLines checkWinnerIn_BLANK_iff by blast
  with m' lineOf_put [of b r c m m' l] show "m' = m" by blast
qed

lemma legalGame_oneMark: "(b, t) \<in> legalGame \<Longrightarrow> oneMark b"
  by (induction rule: legalGame.induct) (simp_all add: oneMark_emptyBoard oneMark_put gameOver_def)

text \<open>
  C6. On every board reached from the empty board by alternating legal moves (the game
  going on only while \<open>checkWinner\<close> reports nobody and the board is not full), at most one
  of the two marks fills a line, \<open>checkWinner\<close> reports a mark exactly when that mark
  fills a line, and testing the eight lines in any other order gives the result of
  \<open>checkWinner\<close>.
\<close>

theorem winner_unique:
  assumes "(b, playerFirst) \<in> legalGame"
  shows "\<not> (hasLine b PLAYER \<and> hasLine b AI) \<and>
         (hasLine b PLAYER \<longleftrightarrow> checkWinner b = PLAYER) \<and>
         (hasLine b AI \<longleftrightarrow> checkWinner b = AI) \<and>
         (\<forall>ls. set ls = set winLines \<longrightarrow> checkWinnerIn b ls = checkWinner b)"
proof -
  from assms have one: "oneMark b" by (rule legalGame_oneMark)
  then have p: "hasLine b PLAYER \<longleftrightarrow> checkWinner b = PLAYER"
    and a: "hasLine b AI \<longleftrightarrow> checkWinner b = AI"
    by (simp_all add: oneMark_hasLine)
  from p a have "\<not> (hasLine b PLAYER \<and> hasLine b AI)" by auto
  with p a one show ?thesis by (simp add: oneMark_order)
qed

theorem winner_unique_witness:
  "(boardOf PLAYER PLAYER PLAYER AI AI BLANK BLANK BLANK BLANK, False) \<in> legalGame \<and>
   checkWinner (boardOf PLAYER PLAYER PLAYER AI AI BLANK BLANK BLANK BLANK) = PLAYER \<and>
   hasLine (boardOf PLAYER PLAYER PLAYER AI AI BLANK BLANK BLANK BLANK) PLAYER \<and>
   \<not> hasLine (boardOf PLAYER PLAYER PLAYER AI AI BLANK BLANK BLANK BLANK) AI \<and>
   checkWinnerIn (boardOf PLAYER PLAYER PLAYER AI AI BLANK BLANK BLANK BLANK) (rev winLines)
     = checkWinner (boardOf PLAYER PLAYER PLAYER AI AI BLANK BLANK BLANK BLANK)"
proof -
  have s0: "(boardOf BLANK BLANK BLANK BLANK BLANK BLANK BLANK BLANK BLANK, True) \<in> legalGame"
    using legal_start [of True] by (simp add: emptyBoard_boardOf)
  have s1: "(boardOf PLAYER BLANK BLANK BLANK BLANK BLANK BLANK BLANK BLANK, False) \<in> legalGame"
    using legal_player [OF s0, of 0 0] by (simp add: gameOver_def boardOf_eval)
  have s2: "(boardOf PLAYER BLANK BLANK AI BLANK BLANK BLANK BLANK BLANK, True) \<in> legalGame"
    using legal_ai [OF s1, of 1 0] by (simp add: gameOver_def boardOf_eval)
  have s3: "(boardOf PLAYER PLAYER BLANK AI BLANK BLANK BLANK BLANK BLANK, False) \<in> legalGame"
    using legal_player [OF s2, of 0 1] by (simp add: gameOver_def boardOf_eval)
  have s4: "(boardOf PLAYER PLAYER BLANK AI AI BLANK BLANK BLANK BLANK, True) \<in> legalGame"
    using legal_ai [OF s3, of 1 1] by (simp add: gameOver_def boardOf_eval)
  have s5: "(boardOf PLAYER PLAYER PLAYER AI AI BLANK BLANK BLANK BLANK, False) \<in> legalGame"
    using legal_player [OF s4, of 0 2] by (simp add: gameOver_def boardOf_eval)
  have w: "checkWinner (boardOf PLAYER PLAYER PLAYER AI AI BLANK BLANK BLANK BLANK) = PLAYER"
    by (simp add: boardOf_eval)
  have "set (rev winLines) = set winLines" by simp
  with winner_unique [OF s5] s5 w show ?thesis by simp
qed

section \<open>The Medium strategy\<close>

text \<open>
  \<open>winsAt b symbol r c\<close>: the cell is empty and \<open>checkWinner\<close> reports \<open>symbol\<close> once
  \<open>symbol\<close> is placed there, which is the test of \<open>tryWinningMove\<close>. \<open>firstWin\<close> is the
  first such cell in row-major order, \<open>canWin\<close> says that there is one.
\<close>

definition winsAt :: "board \<Rightarrow> char \<Rightarrow> int \<Rightarrow> int \<Rightarrow> bool" where
  "winsAt b symbol r c \<longleftrightarrow> b r c = BLANK \<and> checkWinner (put b r c symbol) = symbol"

definition canWin :: "board \<Rightarrow> char \<Rightarrow> bool" where
  "canWin b symbol \<longleftrightarrow> (\<exists>r c. inRange r c \<and> winsAt b symbol r c)"

definition firstWin :: "board \<Rightarrow> char \<Rightarrow> int \<Rightarrow> int \<Rightarrow> bool" where
  "firstWin b symbol r c \<longleftrightarrow>
     inRange r c \<and> winsAt b symbol r c \<and>
     (\<forall>r' c'. inRange r' c' \<and> SIZE * r' + c' < SIZE * r + c \<longrightarrow> \<not> winsAt b symbol r' c')"

lemma tryWinningMove_loop_none:
  "\<forall>(r, c) \<in> set cs. \<not> winsAt b symbol r c \<Longrightarrow> tryWinningMove_loop b cs symbol = (None, b)"
  by (induction cs) (auto simp: winsAt_def Let_def put_put_BLANK)

lemma tryWinningMove_loop_some:
  "winsAt b symbol r c \<Longrightarrow> \<forall>(r', c') \<in> set pre. \<not> winsAt b symbol r' c' \<Longrightarrow>
   tryWinningMove_loop b (pre @ (r, c) # post) symbol = (Some (r, c), b)"
  by (induction pre) (auto simp: winsAt_def Let_def put_put_BLANK)

lemma rowMajor_eq:
  "inRange r c \<Longrightarrow> inRange r' c' \<Longrightarrow> SIZE * r' + c' = SIZE * r + c \<Longrightarrow> r' = r \<and> c' = c"
  unfolding inRange_def SIZE_def by presburger

lemma cells_split:
  assumes "inRange r c"
  shows "\<exists>pre post. cells = pre @ (r, c) # post \<and>
           (\<forall>(r', c') \<in> set pre. inRange r' c' \<and> SIZE * r' + c' < SIZE * r + c)"
proof -
  from assms have "(r, c) \<in> set cells" by (simp add: cells_inRange)
  then obtain pre post where sp: "cells = pre @ (r, c) # post"
    by (auto simp: in_set_conv_decomp)
  from cells_sorted have "\<forall>x \<in> set pre. rowMajor x < rowMajor (r, c)"
    unfolding sp by (simp add: sorted_wrt_append)
  moreover have "\<forall>x \<in> set pre. x \<in> set cells" unfolding sp by simp
  ultimately have "\<forall>(r', c') \<in> set pre. inRange r' c' \<and> SIZE * r' + c' < SIZE * r + c"
    by (auto simp: rowMajor_def cells_inRange)
  with sp show ?thesis by blast
qed

lemma tryWinningMove_first:
  assumes "firstWin b symbol r c"
  shows "tryWinningMove b symbol = (Some (r, c), b)"
proof -
  from assms have r: "inRange r c" and w: "winsAt b symbol r c"
    and f: "\<forall>r' c'. inRange r' c' \<and> SIZE * r' + c' < SIZE * r + c \<longrightarrow> \<not> winsAt b symbol r' c'"
    by (simp_all add: firstWin_def)
  from cells_split [OF r] obtain pre post where sp: "cells = pre @ (r, c) # post"
    and pre: "\<forall>(r', c') \<in> set pre. inRange r' c' \<and> SIZE * r' + c' < SIZE * r + c"
    by blast
  from pre f have "\<forall>(r', c') \<in> set pre. \<not> winsAt b symbol r' c'" by blast
  with w show ?thesis
    unfolding tryWinningMove_def sp by (rule tryWinningMove_loop_some)
qed

lemma tryWinningMove_none:
  assumes "\<not> canWin b symbol"
  shows "tryWinningMove b symbol = (None, b)"
proof -
  from assms have "\<forall>(r, c) \<in> set cells. \<not> winsAt b symbol r c"
    by (auto simp: canWin_def cells_inRange)
  then show ?thesis unfolding tryWinningMove_def by (rule tryWinningMove_loop_none)
qed

lemma canWin_firstWin:
  assumes "canWin b symbol"
  shows "\<exists>r c. firstWin b symbol r c"
proof -
  let ?key = "\<lambda>(r, c). nat (SIZE * r + c)"
  let ?S = "{(r, c). inRange r c \<and> winsAt b symbol r c}"
  from assms obtain r0 c0 where "(r0, c0) \<in> ?S" by (auto simp: canWin_def)
  from ex_has_least_nat [of "\<lambda>x. x \<in> ?S" "(r0, c0)" ?key, OF this]
  obtain r c where m: "(r, c) \<in> ?S" "\<forall>y \<in> ?S. ?key (r, c) \<le> ?key y" by auto
  have "\<not> winsAt b symbol r' c'" if "inRange r' c'" "SIZE * r' + c' < SIZE * r + c" for r' c'
  proof
    assume "winsAt b symbol r' c'"
    with that(1) have "(r', c') \<in> ?S" by simp
    with m(2) have "?key (r, c) \<le> ?key (r', c')" by blast
    with that m(1) show False unfolding inRange_def SIZE_def by auto
  qed
  with m(1) show ?thesis unfolding firstWin_def by blast
qed

lemma winsAt_hasLine:
  assumes "checkWinner b = BLANK" "symbol \<noteq> BLANK"
  shows "winsAt b symbol r c \<longleftrightarrow> b r c = BLANK \<and> hasLine (put b r c symbol) symbol"
proof -
  from assms(1) have "oneMark (put b r c symbol)" by (rule oneMark_put)
  from oneMark_hasLine [OF this assms(2)] show ?thesis by (simp add: winsAt_def)
qed

text \<open>
  C5. The Medium strategy places the Opponent's mark on the first cell in row-major order
  that wins at once for the Opponent when there is one; when there is none, on the first
  cell that would win at once for the Player when there is one; and otherwise it is the
  Easy strategy on the same random values. Whenever a mark can win there is such a first
  cell, so the three cases cover every board. A cell wins at once for a mark when it is
  empty and \<open>checkWinner\<close> reports the mark after the placement; on a board without a
  winner that is: the placement fills a line with the mark. On \<open>O O _ / X X _ / _ _ _\<close>
  the strategy plays (0,2).
\<close>

theorem medium_priority:
  "(firstWin b AI r c \<longrightarrow> makeMediumAIMove rs b = Some (put b r c AI, rs)) \<and>
   (\<not> canWin b AI \<and> firstWin b PLAYER r c \<longrightarrow> makeMediumAIMove rs b = Some (put b r c AI, rs)) \<and>
   (\<not> canWin b AI \<and> \<not> canWin b PLAYER \<longrightarrow> makeMediumAIMove rs b = makeEasyAIMove rs b) \<and>
   (canWin b AI \<longrightarrow> (\<exists>r c. firstWin b AI r c)) \<and>
   (canWin b PLAYER \<longrightarrow> (\<exists>r c. firstWin b PLAYER r c)) \<and>
   (checkWinner b = BLANK \<longrightarrow>
      (winsAt b AI r c \<longleftrightarrow> b r c = BLANK \<and> hasLine (put b r c AI) AI) \<and>
      (winsAt b PLAYER r c \<longleftrightarrow> b r c = BLANK \<and> hasLine (put b r c PLAYER) PLAYER)) \<and>
   makeMediumAIMove rs (boardOf AI AI BLANK PLAYER PLAYER BLANK BLANK BLANK BLANK)
     = Some (put (boardOf AI AI BLANK PLAYER PLAYER BLANK BLANK BLANK BLANK) 0 2 AI, rs)"
proof (intro conjI impI)
  assume "firstWin b AI r c"
  then have "tryWinningMove b AI = (Some (r, c), b)" by (rule tryWinningMove_first)
  then show "makeMediumAIMove rs b = Some (put b r c AI, rs)"
    by (simp add: makeMediumAIMove_def)
next
  assume "\<not> canWin b AI \<and> firstWin b PLAYER r c"
  then have "tryWinningMove b AI = (None, b)" "tryWinningMove b PLAYER = (Some (r, c), b)"
    by (simp_all add: tryWinningMove_none tryWinningMove_first)
  then show "makeMediumAIMove rs b = Some (put b r c AI, rs)"
    by (simp add: makeMediumAIMove_def)
next
  assume "\<not> canWin b AI \<and> \<not> canWin b PLAYER"
  then show "makeMediumAIMove rs b = makeEasyAIMove rs b"
    by (simp add: makeMediumAIMove_def tryWinningMove_none)
next
  assume "canWin b AI"
  then show "\<exists>r c. firstWin b AI r c" by (rule canWin_firstWin)
next
  assume "canWin b PLAYER"
  then show "\<exists>r c. firstWin b PLAYER r c" by (rule canWin_firstWin)
next
  assume "checkWinner b = BLANK"
  then show "winsAt b AI r c \<longleftrightarrow> b r c = BLANK \<and> hasLine (put b r c AI) AI"
    and "winsAt b PLAYER r c \<longleftrightarrow> b r c = BLANK \<and> hasLine (put b r c PLAYER) PLAYER"
    by (simp_all add: winsAt_hasLine)
next
  show "makeMediumAIMove rs (boardOf AI AI BLANK PLAYER PLAYER BLANK BLANK BLANK BLANK)
     = Some (put (boardOf AI AI BLANK PLAYER PLAYER BLANK BLANK BLANK BLANK) 0 2 AI, rs)"
    by (simp add: makeMediumAIMove_def tryWinningMove_def cells_def Let_def boardOf_eval)
qed

theorem medium_priority_witness:
  "firstWin (boardOf AI AI BLANK PLAYER PLAYER BLANK BLANK BLANK BLANK) AI 0 2 \<and>
   makeMediumAIMove [] (boardOf AI AI BLANK PLAYER PLAYER BLANK BLANK BLANK BLANK)
     = Some (boardOf AI AI AI PLAYER PLAYER BLANK BLANK BLANK BLANK, []) \<and>
   \<not> canWin (boardOf PLAYER PLAYER BLANK AI BLANK BLANK BLANK BLANK BLANK) AI \<and>
   firstWin (boardOf PLAYER PLAYER BLANK AI BLANK BLANK BLANK BLANK BLANK) PLAYER 0 2 \<and>
   makeMediumAIMove [] (boardOf PLAYER PLAYER BLANK AI BLANK BLANK BLANK BLANK BLANK)
     = Some (boardOf PLAYER PLAYER AI AI BLANK BLANK BLANK BLANK BLANK, []) \<and>
   \<not> canWin emptyBoard AI \<and> \<not> canWin emptyBoard PLAYER \<and>
   makeMediumAIMove [7, 5] emptyBoard = Some (put emptyBoard 1 2 AI, [])"
proof -
  let ?w = "boardOf AI AI BLANK PLAYER PLAYER BLANK BLANK BLANK BLANK"
  let ?k = "boardOf PLAYER PLAYER BLANK AI BLANK BLANK BLANK BLANK BLANK"
  have w: "firstWin ?w AI 0 2"
    by (auto simp: firstWin_def winsAt_def inRange_cases boardOf_eval SIZE_def)
  have k1: "\<not> canWin ?k AI"
    by (auto simp: canWin_def winsAt_def inRange_cases boardOf_eval)
  have k2: "firstWin ?k PLAYER 0 2"
    by (auto simp: firstWin_def winsAt_def inRange_cases boardOf_eval SIZE_def)
  have e: "\<not> canWin emptyBoard AI" "\<not> canWin emptyBoard PLAYER"
    by (auto simp: canWin_def winsAt_def inRange_cases emptyBoard_boardOf boardOf_eval)
  have easy: "makeEasyAIMove [7, 5] emptyBoard = Some (put emptyBoard 1 2 AI, [])"
    by (simp add: SIZE_def Let_def emptyBoard_def)
  from medium_priority [of ?w 0 2 "[]"] medium_priority [of ?k 0 2 "[]"]
    medium_priority [of emptyBoard 0 0 "[7, 5]"] w k1 k2 e easy
  show ?thesis by (simp add: boardOf_eval)
qed

section \<open>The Hard strategy never loses\<close>

text \<open>
  A bounded search for a way in which the Opponent avoids a Player win: \<open>noLoss n b True\<close>
  holds when, within \<open>n\<close> plies and with the Opponent to move on \<open>b\<close>, some reply of the
  Opponent leads to a board on which \<open>noLoss\<close> holds again whatever the Player answers.
  The Opponent's replies are tried in the order \<open>tryOrder\<close>. The search visits far
  fewer boards than \<open>minimax\<close>, and whenever it succeeds the score of \<open>minimax\<close> is at
  least 0.
\<close>

definition tryOrder :: "(int \<times> int) list" where
  "tryOrder = [(1, 1), (2, 2), (0, 1), (1, 0), (0, 0), (2, 0), (1, 2), (0, 2), (2, 1)]"

fun noLoss :: "nat \<Rightarrow> board \<Rightarrow> bool \<Rightarrow> bool"
  and someReply :: "nat \<Rightarrow> board \<Rightarrow> (int \<times> int) list \<Rightarrow> bool"
  and allReplies :: "nat \<Rightarrow> board \<Rightarrow> (int \<times> int) list \<Rightarrow> bool" where
  "noLoss 0 b isMaximizing = False"
| "noLoss (Suc n) b isMaximizing =
     (if checkWinner b = AI then True
      else if checkWinner b = PLAYER then False
      else if isDraw b then True
      else if isMaximizing then someReply n b tryOrder
      else allReplies n b cells)"
| "someReply n b [] = False"
| "someReply n b ((r, c) # rest) =
     (if b r c = BLANK then (if noLoss n (put b r c AI) False then True else someReply n b rest)
      else someReply n b rest)"
| "allReplies n b [] = True"
| "allReplies n b ((r, c) # rest) =
     (if b r c = BLANK then (if noLoss n (put b r c PLAYER) True then allReplies n b rest else False)
      else allReplies n b rest)"

lemma someReply_iff:
  "someReply n b cs \<longleftrightarrow> (\<exists>(r, c) \<in> set cs. b r c = BLANK \<and> noLoss n (put b r c AI) False)"
  by (induction cs) (auto split: if_splits)

lemma allReplies_iff:
  "allReplies n b cs \<longleftrightarrow> (\<forall>(r, c) \<in> set cs. b r c = BLANK \<longrightarrow> noLoss n (put b r c PLAYER) True)"
  by (induction cs) (auto split: if_splits)

lemma evaluate_AI: "checkWinner b = AI \<Longrightarrow> evaluate b = 10"
  by (simp add: evaluate_def)

lemma evaluate_PLAYER: "checkWinner b = PLAYER \<Longrightarrow> evaluate b = - 10"
  by (simp add: evaluate_def)

lemma evaluate_other: "checkWinner b \<noteq> AI \<Longrightarrow> checkWinner b \<noteq> PLAYER \<Longrightarrow> evaluate b = 0"
  by (simp add: evaluate_def)

lemma set_tryOrder: "set tryOrder = set cells"
  by (auto simp: tryOrder_def cells_def)

lemma noLoss_sound: "noLoss n b m \<Longrightarrow> 0 \<le> fst (minimax b m)"
proof (induction n arbitrary: b m)
  case 0
  then show ?case by simp
next
  case (Suc n)
  show ?case
  proof (cases "checkWinner b = AI")
    case True
    then show ?thesis by (simp add: minimax_terminal evaluate_AI)
  next
    case notAI: False
    with Suc.prems have notP: "checkWinner b \<noteq> PLAYER" by auto
    with notAI have ev: "evaluate b = 0" by (rule evaluate_other)
    show ?thesis
    proof (cases "isDraw b")
      case True
      with ev show ?thesis by (simp add: minimax_terminal)
    next
      case nd: False
      show ?thesis
      proof (cases m)
        case True
        with Suc.prems notAI notP nd have "someReply n b tryOrder" by simp
        then obtain r c where rc: "(r, c) \<in> set cells" "b r c = BLANK"
          "noLoss n (put b r c AI) False"
          by (auto simp: someReply_iff set_tryOrder)
        from rc(3) have "0 \<le> fst (minimax (put b r c AI) False)" by (rule Suc.IH)
        also have "\<dots> \<le> fst (max_loop b cells (- 1000))"
          using rc(1,2) by (rule max_loop_ge)
        finally show ?thesis using True ev nd by (simp add: minimax_max)
      next
        case False
        with Suc.prems notAI notP nd have all: "allReplies n b cells" by simp
        from min_loop_cases [of b cells 1000]
        have "0 \<le> fst (min_loop b cells 1000)"
        proof
          assume "fst (min_loop b cells 1000) = 1000"
          then show ?thesis by simp
        next
          assume "\<exists>(r, c) \<in> set cells. b r c = BLANK \<and>
            fst (min_loop b cells 1000) = fst (minimax (put b r c PLAYER) True)"
          then obtain r c where rc: "(r, c) \<in> set cells" "b r c = BLANK"
            "fst (min_loop b cells 1000) = fst (minimax (put b r c PLAYER) True)"
            by blast
          from all rc(1,2) have "noLoss n (put b r c PLAYER) True"
            by (auto simp: allReplies_iff)
          then have "0 \<le> fst (minimax (put b r c PLAYER) True)" by (rule Suc.IH)
          with rc(3) show ?thesis by simp
        qed
        then show ?thesis using False ev nd by (simp add: minimax_min)
      qed
    qed
  qed
qed

lemmas noLoss_eval =
  boardOf_eval noLoss.simps someReply.simps allReplies.simps
  AI_not_BLANK PLAYER_not_BLANK AI_not_PLAYER if_True if_False simp_thms

lemma someReply_tryOrder:
  "someReply n b tryOrder =
     someReply n b [(1, 1), (2, 2), (0, 1), (1, 0), (0, 0), (2, 0), (1, 2), (0, 2), (2, 1)]"
  by (simp add: tryOrder_def)

lemma allReplies_cells:
  "allReplies n b cells =
     allReplies n b [(0, 0), (0, 1), (0, 2), (1, 0), (1, 1), (1, 2), (2, 0), (2, 1), (2, 2)]"
  by (simp add: cells_def)

lemma noLoss_opponent_first:
  "noLoss (Suc (Suc (Suc (Suc (Suc (Suc (Suc (Suc (Suc (Suc 0)))))))))) emptyBoard True"
  unfolding emptyBoard_boardOf
  by (simp only: noLoss_eval someReply_tryOrder allReplies_cells cong: if_weak_cong)

lemma noLoss_player_first:
  "noLoss (Suc (Suc (Suc (Suc (Suc (Suc (Suc (Suc (Suc (Suc 0)))))))))) emptyBoard False"
  unfolding emptyBoard_boardOf
  by (simp only: noLoss_eval someReply_tryOrder allReplies_cells cong: if_weak_cong)

lemma minimax_emptyBoard: "0 \<le> fst (minimax emptyBoard isMaximizing)"
  using noLoss_sound [OF noLoss_opponent_first] noLoss_sound [OF noLoss_player_first]
  by (cases isMaximizing) simp_all

lemma player_move_keeps:
  assumes "0 \<le> fst (minimax b False)" "\<not> gameOver b" "inRange r c" "b r c = BLANK"
  shows "0 \<le> fst (minimax (put b r c PLAYER) True)"
proof -
  from assms(2) have "evaluate b = 0" "\<not> isDraw b"
    by (simp_all add: gameOver_def evaluate_other)
  then have "fst (minimax b False) = fst (min_loop b cells 1000)" by (simp add: minimax_min)
  also have "\<dots> \<le> fst (minimax (put b r c PLAYER) True)"
    using assms(3,4) by (intro min_loop_le) (simp_all add: cells_inRange)
  finally show ?thesis using assms(1) by simp
qed

lemma hard_move_keeps:
  assumes "0 \<le> fst (minimax b True)" "\<not> gameOver b"
  shows "\<exists>r c. inRange r c \<and> b r c = BLANK \<and> makeHardAIMove b = Inr (put b r c AI) \<and>
           0 \<le> fst (minimax (put b r c AI) False)"
proof -
  from assms(2) have ev: "evaluate b = 0" and nd: "\<not> isDraw b"
    by (simp_all add: gameOver_def evaluate_other)
  from makeHardAIMove_search_spec [OF nd]
  obtain r c where s: "(r, c) \<in> set cells" "b r c = BLANK"
    "makeHardAIMove_search b = ((fst (minimax (put b r c AI) False), r, c), b)"
    "\<forall>(r', c') \<in> set cells. b r' c' = BLANK \<longrightarrow>
        fst (minimax (put b r' c' AI) False) \<le> fst (minimax (put b r c AI) False) \<and>
        (rowMajor (r', c') < rowMajor (r, c) \<longrightarrow>
           fst (minimax (put b r' c' AI) False) < fst (minimax (put b r c AI) False))"
    by blast
  from ev nd assms(1) have "0 \<le> fst (max_loop b cells (- 1000))" by (simp add: minimax_max)
  with max_loop_cases [of b cells "- 1000"]
  obtain r' c' where rc': "(r', c') \<in> set cells" "b r' c' = BLANK"
    "fst (max_loop b cells (- 1000)) = fst (minimax (put b r' c' AI) False)"
    by auto
  from s(4) rc'(1,2)
  have "fst (minimax (put b r' c' AI) False) \<le> fst (minimax (put b r c AI) False)" by blast
  with rc'(3) \<open>0 \<le> fst (max_loop b cells (- 1000))\<close>
  have "0 \<le> fst (minimax (put b r c AI) False)" by simp
  moreover have "makeHardAIMove b = Inr (put b r c AI)"
    using s(3,1) by (rule makeHardAIMove_placement)
  moreover have "inRange r c" using s(1) by (simp add: cells_inRange)
  ultimately show ?thesis using s(2) by blast
qed

lemma hardGame_score: "(b, playerFirst) \<in> hardGame \<Longrightarrow> 0 \<le> fst (minimax b (\<not> playerFirst))"
proof (induction rule: hardGame.induct)
  case (hard_start playerFirst)
  show ?case by (rule minimax_emptyBoard)
next
  case (hard_player b r c)
  then show ?case by (simp add: player_move_keeps)
next
  case (hard_ai b b')
  from hard_ai.IH hard_ai.hyps(2) hard_move_keeps [of b]
  obtain r c where "makeHardAIMove b = Inr (put b r c AI)"
    "0 \<le> fst (minimax (put b r c AI) False)" by auto
  with hard_ai.hyps(3) show ?case by simp
qed

text \<open>
  The same search for the other side: \<open>noWin n b isMaximizing\<close> holds when the Player
  can keep the Opponent from winning; then the score of \<open>minimax\<close> is at most 0.
\<close>

fun noWin :: "nat \<Rightarrow> board \<Rightarrow> bool \<Rightarrow> bool"
  and somePlayerReply :: "nat \<Rightarrow> board \<Rightarrow> (int \<times> int) list \<Rightarrow> bool"
  and allOpponentReplies :: "nat \<Rightarrow> board \<Rightarrow> (int \<times> int) list \<Rightarrow> bool" where
  "noWin 0 b isMaximizing = False"
| "noWin (Suc n) b isMaximizing =
     (if checkWinner b = AI then False
      else if checkWinner b = PLAYER then True
      else if isDraw b then True
      else if isMaximizing then allOpponentReplies n b cells
      else somePlayerReply n b tryOrder)"
| "somePlayerReply n b [] = False"
| "somePlayerReply n b ((r, c) # rest) =
     (if b r c = BLANK then
        (if noWin n (put b r c PLAYER) True then True else somePlayerReply n b rest)
      else somePlayerReply n b rest)"
| "allOpponentReplies n b [] = True"
| "allOpponentReplies n b ((r, c) # rest) =
     (if b r c = BLANK then
        (if noWin n (put b r c AI) False then allOpponentReplies n b rest else False)
      else allOpponentReplies n b rest)"

lemma somePlayerReply_iff:
  "somePlayerReply n b cs \<longleftrightarrow>
     (\<exists>(r, c) \<in> set cs. b r c = BLANK \<and> noWin n (put b r c PLAYER) True)"
  by (induction cs) (auto split: if_splits)

lemma allOpponentReplies_iff:
  "allOpponentReplies n b cs \<longleftrightarrow>
     (\<forall>(r, c) \<in> set cs. b r c = BLANK \<longrightarrow> noWin n (put b r c AI) False)"
  by (induction cs) (auto split: if_splits)

lemma noWin_sound: "noWin n b m \<Longrightarrow> fst (minimax b m) \<le> 0"
proof (induction n arbitrary: b m)
  case 0
  then show ?case by simp
next
  case (Suc n)
  show ?case
  proof (cases "checkWinner b = PLAYER")
    case True
    then show ?thesis by (simp add: minimax_terminal evaluate_PLAYER)
  next
    case notP: False
    with Suc.prems have notAI: "checkWinner b \<noteq> AI" by auto
    from notAI notP have ev: "evaluate b = 0" by (rule evaluate_other)
    show ?thesis
    proof (cases "isDraw b")
      case True
      with ev show ?thesis by (simp add: minimax_terminal)
    next
      case nd: False
      show ?thesis
      proof (cases m)
        case False
        with Suc.prems notAI notP nd have "somePlayerReply n b tryOrder" by simp
        then obtain r c where rc: "(r, c) \<in> set cells" "b r c = BLANK"
          "noWin n (put b r c PLAYER) True"
          by (auto simp: somePlayerReply_iff set_tryOrder)
        have "fst (min_loop b cells 1000) \<le> fst (minimax (put b r c PLAYER) True)"
          using rc(1,2) by (rule min_loop_le)
        also from rc(3) have "\<dots> \<le> 0" by (rule Suc.IH)
        finally show ?thesis using False ev nd by (simp add: minimax_min)
      next
        case True
        with Suc.prems notAI notP nd have all: "allOpponentReplies n b cells" by simp
        from max_loop_cases [of b cells "- 1000"]
        have "fst (max_loop b cells (- 1000)) \<le> 0"
        proof
          assume "fst (max_loop b cells (- 1000)) = - 1000"
          then show ?thesis by simp
        next
          assume "\<exists>(r, c) \<in> set cells. b r c = BLANK \<and>
            fst (max_loop b cells (- 1000)) = fst (minimax (put b r c AI) False)"
          then obtain r c where rc: "(r, c) \<in> set cells" "b r c = BLANK"
            "fst (max_loop b cells (- 1000)) = fst (minimax (put b r c AI) False)"
            by blast
          from all rc(1,2) have "noWin n (put b r c AI) False"
            by (auto simp: allOpponentReplies_iff)
          then have "fst (minimax (put b r c AI) False) \<le> 0" by (rule Suc.IH)
          with rc(3) show ?thesis by simp
        qed
        then show ?thesis using True ev nd by (simp add: minimax_max)
      qed
    qed
  qed
qed

lemmas noWin_eval =
  boardOf_eval noWin.simps somePlayerReply.simps allOpponentReplies.simps
  AI_not_BLANK PLAYER_not_BLANK AI_not_PLAYER if_True if_False simp_thms

lemma somePlayerReply_tryOrder:
  "somePlayerReply n b tryOrder =
     somePlayerReply n b [(1, 1), (2, 2), (0, 1), (1, 0), (0, 0), (2, 0), (1, 2), (0, 2), (2, 1)]"
  by (simp add: tryOrder_def)

lemma allOpponentReplies_cells:
  "allOpponentReplies n b cells =
     allOpponentReplies n b [(0, 0), (0, 1), (0, 2), (1, 0), (1, 1), (1, 2), (2, 0), (2, 1), (2, 2)]"
  by (simp add: cells_def)

lemma noWin_after_centre:
  "noWin (Suc (Suc (Suc (Suc (Suc (Suc (Suc (Suc (Suc 0)))))))))
     (boardOf BLANK BLANK BLANK BLANK PLAYER BLANK BLANK BLANK BLANK) True"
  by (simp only: noWin_eval somePlayerReply_tryOrder allOpponentReplies_cells cong: if_weak_cong)

lemma noLoss_after_centre_corner:
  "noLoss (Suc (Suc (Suc (Suc (Suc (Suc (Suc (Suc 0))))))))
     (boardOf AI BLANK BLANK BLANK PLAYER BLANK BLANK BLANK BLANK) False"
  by (simp only: noLoss_eval someReply_tryOrder allReplies_cells cong: if_weak_cong)

text \<open>The Hard strategy answers the centre opening on the corner (0,0).\<close>

lemma makeHardAIMove_after_centre:
  "makeHardAIMove (boardOf BLANK BLANK BLANK BLANK PLAYER BLANK BLANK BLANK BLANK)
     = Inr (boardOf AI BLANK BLANK BLANK PLAYER BLANK BLANK BLANK BLANK)"
proof -
  let ?b = "boardOf BLANK BLANK BLANK BLANK PLAYER BLANK BLANK BLANK BLANK"
  have nd: "\<not> isDraw ?b" and ev: "evaluate ?b = 0"
    by (simp_all add: evaluate_def boardOf_eval)
  from makeHardAIMove_search_spec [OF nd]
  obtain r c where s: "(r, c) \<in> set cells" "?b r c = BLANK"
    "makeHardAIMove_search ?b = ((fst (minimax (put ?b r c AI) False), r, c), ?b)"
    "\<forall>(r', c') \<in> set cells. ?b r' c' = BLANK \<longrightarrow>
        fst (minimax (put ?b r' c' AI) False) \<le> fst (minimax (put ?b r c AI) False) \<and>
        (rowMajor (r', c') < rowMajor (r, c) \<longrightarrow>
           fst (minimax (put ?b r' c' AI) False) < fst (minimax (put ?b r c AI) False))"
    by blast
  have "fst (minimax (put ?b r c AI) False) \<le> fst (max_loop ?b cells (- 1000))"
    using s(1,2) by (rule max_loop_ge)
  also have "\<dots> = fst (minimax ?b True)" using ev nd by (simp add: minimax_max)
  also have "\<dots> \<le> 0" using noWin_after_centre by (rule noWin_sound)
  finally have upper: "fst (minimax (put ?b r c AI) False) \<le> 0" .
  have "0 \<le> fst (minimax (boardOf AI BLANK BLANK BLANK PLAYER BLANK BLANK BLANK BLANK) False)"
    using noLoss_after_centre_corner by (rule noLoss_sound)
  then have lower: "0 \<le> fst (minimax (put ?b 0 0 AI) False)"
    by (simp add: boardOf_eval)
  have first: "(0, 0) \<in> set cells" "?b 0 0 = BLANK"
    by (simp_all add: cells_def boardOf_eval)
  have "\<not> rowMajor (0, 0) < rowMajor (r, c)"
  proof
    assume "rowMajor (0, 0) < rowMajor (r, c)"
    with s(4) first
    have "fst (minimax (put ?b 0 0 AI) False) < fst (minimax (put ?b r c AI) False)"
      by blast
    with upper lower show False by simp
  qed
  with s(1) have "(r, c) = (0, 0)"
    by (auto simp: rowMajor_def SIZE_def cells_def)
  with s(3,1) have "makeHardAIMove ?b = Inr (put ?b 0 0 AI)"
    by (simp add: makeHardAIMove_placement)
  then show ?thesis by (simp add: boardOf_eval)
qed

text \<open>Continuations compose.\<close>

lemma hardFrom_trans:
  "(b2, t2) \<in> hardFrom b1 t1 \<Longrightarrow> (b1, t1) \<in> hardFrom b0 t0 \<Longrightarrow> (b2, t2) \<in> hardFrom b0 t0"
proof (induction rule: hardFrom.induct)
  case from_start
  then show ?case .
next
  case (from_player b r c)
  then show ?case by (intro hardFrom.from_player) simp_all
next
  case (from_ai b b')
  then show ?case by (intro hardFrom.from_ai [of b]) simp_all
qed

lemma hardGame_hardFrom:
  "(b, t) \<in> hardGame \<longleftrightarrow> (\<exists>playerFirst. (b, t) \<in> hardFrom emptyBoard playerFirst)"
proof
  assume "(b, t) \<in> hardGame"
  then show "\<exists>playerFirst. (b, t) \<in> hardFrom emptyBoard playerFirst"
  proof (induction rule: hardGame.induct)
    case (hard_start playerFirst)
    show ?case by (blast intro: from_start)
  next
    case (hard_player b r c)
    then show ?case by (blast intro: from_player)
  next
    case (hard_ai b b')
    then show ?case by (blast intro: from_ai)
  qed
next
  assume "\<exists>playerFirst. (b, t) \<in> hardFrom emptyBoard playerFirst"
  then obtain playerFirst where "(b, t) \<in> hardFrom emptyBoard playerFirst" ..
  then show "(b, t) \<in> hardGame"
    by (induction rule: hardFrom.induct) (auto intro: hardGame.intros)
qed

lemma hardFrom_score:
  "(b', t') \<in> hardFrom b t \<Longrightarrow> 0 \<le> fst (minimax b (\<not> t)) \<Longrightarrow> 0 \<le> fst (minimax b' (\<not> t'))"
proof (induction rule: hardFrom.induct)
  case from_start
  then show ?case .
next
  case (from_player b1 r c)
  then show ?case by (simp add: player_move_keeps)
next
  case (from_ai b1 b')
  from from_ai.IH [OF from_ai.prems] from_ai.hyps(2) hard_move_keeps [of b1]
  obtain r c where "makeHardAIMove b1 = Inr (put b1 r c AI)"
    "0 \<le> fst (minimax (put b1 r c AI) False)" by auto
  with from_ai.hyps(3) show ?case by simp
qed

lemma score_not_lost: "0 \<le> fst (minimax b m) \<Longrightarrow> checkWinner b \<noteq> PLAYER"
  by (auto simp: minimax_terminal evaluate_PLAYER)

text \<open>The cells of a board of the game hold a space or one of the two marks.\<close>

definition marksOnly :: "board \<Rightarrow> bool" where
  "marksOnly b \<longleftrightarrow> (\<forall>r c. b r c = BLANK \<or> b r c = PLAYER \<or> b r c = AI)"

lemma marksOnly_emptyBoard: "marksOnly emptyBoard"
  by (simp add: marksOnly_def emptyBoard_def)

lemma marksOnly_put: "marksOnly b \<Longrightarrow> v = PLAYER \<or> v = AI \<Longrightarrow> marksOnly (put b r c v)"
  by (auto simp: marksOnly_def put_apply)

lemma legalGame_marksOnly: "(b, t) \<in> legalGame \<Longrightarrow> marksOnly b"
  by (induction rule: legalGame.induct) (simp_all add: marksOnly_emptyBoard marksOnly_put)

lemma marksOnly_checkWinner:
  assumes "marksOnly b"
  shows "checkWinner b = BLANK \<or> checkWinner b = PLAYER \<or> checkWinner b = AI"
proof (cases "checkWinner b = BLANK")
  case True
  then show ?thesis by simp
next
  case False
  then have "checkWinnerIn b winLines \<noteq> BLANK" by (simp add: checkWinner_winLines)
  from checkWinnerIn_line [OF this] obtain l where "lineOf b (checkWinner b) l"
    by (auto simp: checkWinner_winLines)
  then obtain p where "cell b p = checkWinner b" by (cases l) auto
  with assms show ?thesis unfolding marksOnly_def cell_def by metis
qed

lemma marksOnly_not_over:
  assumes "marksOnly b" "evaluate b = 0" "\<not> isDraw b"
  shows "\<not> gameOver b"
proof -
  from assms(2) have "checkWinner b \<noteq> AI" "checkWinner b \<noteq> PLAYER"
    by (auto simp: evaluate_def Let_def split: if_splits)
  with marksOnly_checkWinner [OF assms(1)] assms(3) show ?thesis by (simp add: gameOver_def)
qed

lemma lost_board:
  "marksOnly b \<Longrightarrow> fst (minimax b m) < 0 \<Longrightarrow>
   \<exists>b' t'. (b', t') \<in> hardFrom b (\<not> m) \<and> checkWinner b' = PLAYER"
proof (induction "empties b" arbitrary: b m rule: less_induct)
  case less
  show ?case
  proof (cases "evaluate b = 10 \<or> evaluate b = - 10 \<or> isDraw b")
    case True
    with less.prems(2) have "evaluate b < 0" by (simp add: minimax_terminal)
    then have "checkWinner b = PLAYER" by (auto simp: evaluate_def Let_def split: if_splits)
    moreover have "(b, \<not> m) \<in> hardFrom b (\<not> m)" by (rule from_start)
    ultimately show ?thesis by blast
  next
    case False
    then have ev: "evaluate b = 0" and nd: "\<not> isDraw b"
      using evaluate_cases [of b] by auto
    from less.prems(1) ev nd have go: "\<not> gameOver b" by (rule marksOnly_not_over)
    show ?thesis
    proof (cases m)
      case True
      from makeHardAIMove_search_spec [OF nd]
      obtain r c where s: "(r, c) \<in> set cells" "b r c = BLANK"
        "makeHardAIMove_search b = ((fst (minimax (put b r c AI) False), r, c), b)"
        by blast
      have mv: "makeHardAIMove b = Inr (put b r c AI)"
        using s(3,1) by (rule makeHardAIMove_placement)
      have "fst (minimax (put b r c AI) False) \<le> fst (max_loop b cells (- 1000))"
        using s(1,2) by (rule max_loop_ge)
      also have "\<dots> = fst (minimax b m)" using True ev nd by (simp add: minimax_max)
      finally have "fst (minimax (put b r c AI) False) < 0" using less.prems(2) by simp
      moreover have "empties (put b r c AI) < empties b"
        using s(1,2) by (simp add: empties_put_less)
      moreover have "marksOnly (put b r c AI)"
        using less.prems(1) by (simp add: marksOnly_put)
      ultimately obtain b' t' where p: "(b', t') \<in> hardFrom (put b r c AI) (\<not> False)"
        "checkWinner b' = PLAYER"
        using less.hyps [of "put b r c AI" False] by blast
      have "(put b r c AI, True) \<in> hardFrom b False"
        using from_start [of b False] go mv by (rule from_ai)
      with p(1) have "(b', t') \<in> hardFrom b False" by (simp add: hardFrom_trans)
      with p(2) True show ?thesis by auto
    next
      case False
      then have "fst (min_loop b cells 1000) < 0"
        using less.prems(2) ev nd by (simp add: minimax_min)
      with min_loop_cases [of b cells 1000]
      obtain r c where s: "(r, c) \<in> set cells" "b r c = BLANK"
        "fst (min_loop b cells 1000) = fst (minimax (put b r c PLAYER) True)"
        by auto
      with \<open>fst (min_loop b cells 1000) < 0\<close>
      have "fst (minimax (put b r c PLAYER) True) < 0" by simp
      moreover have "empties (put b r c PLAYER) < empties b"
        using s(1,2) by (simp add: empties_put_less)
      moreover have "marksOnly (put b r c PLAYER)"
        using less.prems(1) by (simp add: marksOnly_put)
      ultimately obtain b' t' where p: "(b', t') \<in> hardFrom (put b r c PLAYER) (\<not> True)"
        "checkWinner b' = PLAYER"
        using less.hyps [of "put b r c PLAYER" True] by blast
      have ir: "inRange r c" using s(1) by (simp add: cells_inRange)
      from from_start [of b True] go ir s(2)
      have "(put b r c PLAYER, False) \<in> hardFrom b True" by (rule from_player)
      with p(1) have "(b', t') \<in> hardFrom b True" by (simp add: hardFrom_trans)
      with p(2) False show ?thesis by auto
    qed
  qed
qed

text \<open>
  A board of a legal game on which the Opponent has not played the Hard strategy:
  \<open>X O _ / X X _ / _ _ O\<close>, reached by X (0,0), O (0,1), X (1,0), O (2,2), X (1,1).
  The Player threatens (1,2) and (2,0); every trial of the search scores -10, so the first
  empty cell (0,2) is taken, and the Player wins at (1,2).
\<close>

lemma blunder_board_legal:
  "(boardOf PLAYER AI BLANK PLAYER PLAYER BLANK BLANK BLANK AI, False) \<in> legalGame"
proof -
  have s0: "(boardOf BLANK BLANK BLANK BLANK BLANK BLANK BLANK BLANK BLANK, True) \<in> legalGame"
    using legal_start [of True] by (simp add: emptyBoard_boardOf)
  have s1: "(boardOf PLAYER BLANK BLANK BLANK BLANK BLANK BLANK BLANK BLANK, False) \<in> legalGame"
    using legal_player [OF s0, of 0 0] by (simp add: gameOver_def boardOf_eval)
  have s2: "(boardOf PLAYER AI BLANK BLANK BLANK BLANK BLANK BLANK BLANK, True) \<in> legalGame"
    using legal_ai [OF s1, of 0 1] by (simp add: gameOver_def boardOf_eval)
  have s3: "(boardOf PLAYER AI BLANK PLAYER BLANK BLANK BLANK BLANK BLANK, False) \<in> legalGame"
    using legal_player [OF s2, of 1 0] by (simp add: gameOver_def boardOf_eval)
  have s4: "(boardOf PLAYER AI BLANK PLAYER BLANK BLANK BLANK BLANK AI, True) \<in> legalGame"
    using legal_ai [OF s3, of 2 2] by (simp add: gameOver_def boardOf_eval)
  show ?thesis
    using legal_player [OF s4, of 1 1] by (simp add: gameOver_def boardOf_eval)
qed

lemma blunder_board_search:
  "makeHardAIMove_search (boardOf PLAYER AI BLANK PLAYER PLAYER BLANK BLANK BLANK AI)
     = ((- 10, 0, 2), boardOf PLAYER AI BLANK PLAYER PLAYER BLANK BLANK BLANK AI)"
  by (simp add: makeHardAIMove_search_def minimax_eval)

lemma blunder_board_move:
  "makeHardAIMove (boardOf PLAYER AI BLANK PLAYER PLAYER BLANK BLANK BLANK AI)
     = Inr (boardOf PLAYER AI AI PLAYER PLAYER BLANK BLANK BLANK AI)"
  by (simp add: makeHardAIMove_def blunder_board_search SIZE_def boardOf_eval)

lemma blunder_board_score:
  "fst (minimax (boardOf PLAYER AI BLANK PLAYER PLAYER BLANK BLANK BLANK AI) True) = - 10"
  by (simp add: minimax_eval)

lemma blunder_board_lost:
  "(boardOf PLAYER AI AI PLAYER PLAYER PLAYER BLANK BLANK AI, False)
     \<in> hardFrom (boardOf PLAYER AI BLANK PLAYER PLAYER BLANK BLANK BLANK AI) False"
proof -
  let ?b = "boardOf PLAYER AI BLANK PLAYER PLAYER BLANK BLANK BLANK AI"
  have g: "\<not> gameOver ?b" by (simp add: gameOver_def boardOf_eval)
  from from_start [of ?b False] g blunder_board_move
  have s1: "(boardOf PLAYER AI AI PLAYER PLAYER BLANK BLANK BLANK AI, True) \<in> hardFrom ?b False"
    by (rule from_ai)
  show ?thesis
    using from_player [OF s1, of 1 2] by (simp add: gameOver_def boardOf_eval)
qed

text \<open>
  C1 (as the code has it). From a board on which the score of \<open>minimax\<close> for the side
  to move is not negative (the Player cannot force a win), reached in a game or not, no
  continuation in which the Opponent plays \<open>makeHardAIMove\<close> at each of its turns and the
  Player any empty cell at each of his ends on a board on which \<open>checkWinner\<close> reports
  the Player; and at each Opponent turn of such a continuation \<open>makeHardAIMove\<close> returns
  a board. The empty board and every board of a game that the Opponent has played with
  \<open>makeHardAIMove\<close> from the empty board, either side moving first, are such boards, so
  the Hard strategy never loses a game it plays from the start. On a board of a legal game
  whose score is negative (the Opponent has made a losing move that was not Hard's) some
  such continuation does end with the Player's win.
\<close>

theorem hard_never_loses:
  "((b, playerFirst) \<in> hardGame \<longrightarrow>
      0 \<le> fst (minimax b (\<not> playerFirst)) \<and> checkWinner b \<noteq> PLAYER \<and>
      (\<not> playerFirst \<and> \<not> gameOver b \<longrightarrow>
         (\<exists>b'. makeHardAIMove b = Inr b' \<and> (b', True) \<in> hardGame \<and>
               checkWinner b' \<noteq> PLAYER))) \<and>
   (0 \<le> fst (minimax b (\<not> playerFirst)) \<and> (b1, playerFirst1) \<in> hardFrom b playerFirst \<longrightarrow>
      checkWinner b1 \<noteq> PLAYER \<and>
      (\<not> playerFirst1 \<and> \<not> gameOver b1 \<longrightarrow>
         (\<exists>b2. makeHardAIMove b1 = Inr b2 \<and> (b2, True) \<in> hardFrom b playerFirst \<and>
               checkWinner b2 \<noteq> PLAYER))) \<and>
   ((b, playerFirst) \<in> legalGame \<and> fst (minimax b (\<not> playerFirst)) < 0 \<longrightarrow>
      (\<exists>b1 playerFirst1. (b1, playerFirst1) \<in> hardFrom b playerFirst \<and>
                         checkWinner b1 = PLAYER))"
proof (intro conjI impI)
  assume h: "(b, playerFirst) \<in> hardGame"
  then show s: "0 \<le> fst (minimax b (\<not> playerFirst))" by (rule hardGame_score)
  then show "checkWinner b \<noteq> PLAYER" by (rule score_not_lost)
  assume t: "\<not> playerFirst \<and> \<not> gameOver b"
  with s have "0 \<le> fst (minimax b True)" by simp
  from hard_move_keeps [OF this] t obtain r c
    where m: "makeHardAIMove b = Inr (put b r c AI)" by blast
  from h t m have g: "(put b r c AI, True) \<in> hardGame" by (auto intro: hard_ai)
  from hardGame_score [OF g] have "checkWinner (put b r c AI) \<noteq> PLAYER"
    by (intro score_not_lost [of _ False]) simp
  with m g show "\<exists>b'. makeHardAIMove b = Inr b' \<and> (b', True) \<in> hardGame \<and>
      checkWinner b' \<noteq> PLAYER"
    by blast
next
  assume a: "0 \<le> fst (minimax b (\<not> playerFirst)) \<and> (b1, playerFirst1) \<in> hardFrom b playerFirst"
  then have a1: "0 \<le> fst (minimax b (\<not> playerFirst))"
    and a2: "(b1, playerFirst1) \<in> hardFrom b playerFirst" by simp_all
  from a2 a1 have s: "0 \<le> fst (minimax b1 (\<not> playerFirst1))" by (rule hardFrom_score)
  then show "checkWinner b1 \<noteq> PLAYER" by (rule score_not_lost)
  assume t: "\<not> playerFirst1 \<and> \<not> gameOver b1"
  with s have "0 \<le> fst (minimax b1 True)" by simp
  from hard_move_keeps [OF this] t obtain r c
    where m: "makeHardAIMove b1 = Inr (put b1 r c AI)" by blast
  from a2 t m have g: "(put b1 r c AI, True) \<in> hardFrom b playerFirst"
    by (auto intro: from_ai)
  from hardFrom_score [OF g a1] have "checkWinner (put b1 r c AI) \<noteq> PLAYER"
    by (intro score_not_lost [of _ False]) simp
  with m g show "\<exists>b2. makeHardAIMove b1 = Inr b2 \<and> (b2, True) \<in> hardFrom b playerFirst \<and>
      checkWinner b2 \<noteq> PLAYER"
    by blast
next
  assume "(b, playerFirst) \<in> legalGame \<and> fst (minimax b (\<not> playerFirst)) < 0"
  then have "marksOnly b" "fst (minimax b (\<not> playerFirst)) < 0"
    by (auto dest: legalGame_marksOnly)
  from lost_board [OF this]
  show "\<exists>b1 playerFirst1. (b1, playerFirst1) \<in> hardFrom b playerFirst \<and> checkWinner b1 = PLAYER"
    by simp
qed

theorem hard_never_loses_witness:
  "(boardOf BLANK BLANK BLANK BLANK PLAYER BLANK BLANK BLANK BLANK, False) \<in> hardGame \<and>
   \<not> gameOver (boardOf BLANK BLANK BLANK BLANK PLAYER BLANK BLANK BLANK BLANK) \<and>
   0 \<le> fst (minimax (boardOf BLANK BLANK BLANK BLANK PLAYER BLANK BLANK BLANK BLANK) True) \<and>
   makeHardAIMove (boardOf BLANK BLANK BLANK BLANK PLAYER BLANK BLANK BLANK BLANK)
     = Inr (boardOf AI BLANK BLANK BLANK PLAYER BLANK BLANK BLANK BLANK) \<and>
   (boardOf AI BLANK BLANK BLANK PLAYER BLANK BLANK BLANK BLANK, True)
     \<in> hardFrom (boardOf BLANK BLANK BLANK BLANK PLAYER BLANK BLANK BLANK BLANK) False \<and>
   checkWinner (boardOf AI BLANK BLANK BLANK PLAYER BLANK BLANK BLANK BLANK) \<noteq> PLAYER \<and>
   (boardOf PLAYER AI BLANK PLAYER PLAYER BLANK BLANK BLANK AI, False) \<in> legalGame \<and>
   fst (minimax (boardOf PLAYER AI BLANK PLAYER PLAYER BLANK BLANK BLANK AI) True) < 0 \<and>
   (\<exists>b1 playerFirst1.
      (b1, playerFirst1) \<in> hardFrom (boardOf PLAYER AI BLANK PLAYER PLAYER BLANK BLANK BLANK AI) False \<and>
      checkWinner b1 = PLAYER)"
proof -
  let ?b = "boardOf BLANK BLANK BLANK BLANK PLAYER BLANK BLANK BLANK BLANK"
  let ?b1 = "boardOf AI BLANK BLANK BLANK PLAYER BLANK BLANK BLANK BLANK"
  let ?x = "boardOf PLAYER AI BLANK PLAYER PLAYER BLANK BLANK BLANK AI"
  have s0: "(boardOf BLANK BLANK BLANK BLANK BLANK BLANK BLANK BLANK BLANK, True) \<in> hardGame"
    using hard_start [of True] by (simp add: emptyBoard_boardOf)
  have s1: "(?b, False) \<in> hardGame"
    using hard_player [OF s0, of 1 1] by (simp add: gameOver_def boardOf_eval)
  have g: "\<not> gameOver ?b" by (simp add: gameOver_def boardOf_eval)
  from hard_never_loses [of ?b False] s1
  have score: "0 \<le> fst (minimax ?b True)" by simp
  from from_start [of ?b False] g makeHardAIMove_after_centre
  have c: "(?b1, True) \<in> hardFrom ?b False" by (rule from_ai)
  from hard_never_loses [of ?b False ?b1 True] score c
  have w: "checkWinner ?b1 \<noteq> PLAYER" by simp
  have lost: "fst (minimax ?x True) < 0" by (simp add: blunder_board_score)
  from hard_never_loses [of ?x False] blunder_board_legal lost
  have "\<exists>b1 playerFirst1. (b1, playerFirst1) \<in> hardFrom ?x False \<and> checkWinner b1 = PLAYER"
    by simp
  with s1 g score makeHardAIMove_after_centre c w blunder_board_legal lost
  show ?thesis by simp
qed

text \<open>
  The statement fails for the boards of legal games at large: \<open>X O _ / X X _ / _ _ O\<close>
  is a board of a legal game with the Opponent to move, it is not over and not a board of
  a game played with \<open>makeHardAIMove\<close>; there \<open>makeHardAIMove\<close> plays (0,2), the Player
  answers (1,2), and \<open>checkWinner\<close> reports the Player.
\<close>

theorem hard_loses_after_blunder:
  "(boardOf PLAYER AI BLANK PLAYER PLAYER BLANK BLANK BLANK AI, False) \<in> legalGame \<and>
   (boardOf PLAYER AI BLANK PLAYER PLAYER BLANK BLANK BLANK AI, False) \<notin> hardGame \<and>
   \<not> gameOver (boardOf PLAYER AI BLANK PLAYER PLAYER BLANK BLANK BLANK AI) \<and>
   makeHardAIMove (boardOf PLAYER AI BLANK PLAYER PLAYER BLANK BLANK BLANK AI)
     = Inr (boardOf PLAYER AI AI PLAYER PLAYER BLANK BLANK BLANK AI) \<and>
   (boardOf PLAYER AI AI PLAYER PLAYER PLAYER BLANK BLANK AI, False)
     \<in> hardFrom (boardOf PLAYER AI BLANK PLAYER PLAYER BLANK BLANK BLANK AI) False \<and>
   checkWinner (boardOf PLAYER AI AI PLAYER PLAYER PLAYER BLANK BLANK AI) = PLAYER"
proof -
  let ?x = "boardOf PLAYER AI BLANK PLAYER PLAYER BLANK BLANK BLANK AI"
  have g: "\<not> gameOver ?x" by (simp add: gameOver_def boardOf_eval)
  have w: "checkWinner (boardOf PLAYER AI AI PLAYER PLAYER PLAYER BLANK BLANK AI) = PLAYER"
    by (simp add: boardOf_eval)
  have "(?x, False) \<notin> hardGame"
  proof
    assume "(?x, False) \<in> hardGame"
    from hardGame_score [OF this] blunder_board_score show False by simp
  qed
  with blunder_board_legal g blunder_board_move blunder_board_lost w show ?thesis by simp
qed

section \<open>minimax terminates\<close>

lemma empties_zero_iff: "empties b = 0 \<longleftrightarrow> isDraw b"
  by (auto simp: empties_def isDraw_iff filter_empty_conv)

text \<open>
  C8. Every call of \<open>minimax\<close> terminates: the argument is in the domain of the
  recursion, that is, the calls it leads to form no infinite chain. Each trial placement
  (the Opponent's or the Player's mark on an empty cell within range) gives a board with
  strictly fewer empty cells, which is the order the termination proof uses, and a board
  with no empty cell satisfies \<open>isDraw\<close>, so that \<open>minimax\<close> returns at once with the
  score of \<open>evaluate\<close>.
\<close>

theorem minimax_terminates:
  "minimax_max_loop_min_loop_dom (Inl (b, isMaximizing)) \<and>
   (\<forall>r c. inRange r c \<and> b r c = BLANK \<longrightarrow>
      empties (put b r c AI) < empties b \<and> empties (put b r c PLAYER) < empties b) \<and>
   (empties b = 0 \<longrightarrow> isDraw b \<and> minimax b isMaximizing = (evaluate b, b))"
proof (intro conjI allI impI)
  show "minimax_max_loop_min_loop_dom (Inl (b, isMaximizing))"
    using all_calls_terminate by blast
next
  fix r c
  assume "inRange r c \<and> b r c = BLANK"
  then show "empties (put b r c AI) < empties b" "empties (put b r c PLAYER) < empties b"
    by (simp_all add: empties_put_less cells_inRange)
next
  assume "empties b = 0"
  then show "isDraw b" by (simp add: empties_zero_iff)
  then show "minimax b isMaximizing = (evaluate b, b)" by (simp add: minimax_terminal)
qed

theorem minimax_terminates_witness:
  "inRange 1 1 \<and> emptyBoard 1 1 = BLANK \<and>
   empties emptyBoard = 9 \<and> empties (put emptyBoard 1 1 AI) = 8 \<and>
   empties (put emptyBoard 1 1 AI) < empties emptyBoard \<and>
   minimax_max_loop_min_loop_dom (Inl (emptyBoard, True)) \<and>
   empties (boardOf PLAYER AI PLAYER PLAYER AI AI AI PLAYER PLAYER) = 0 \<and>
   isDraw (boardOf PLAYER AI PLAYER PLAYER AI AI AI PLAYER PLAYER) \<and>
   minimax (boardOf PLAYER AI PLAYER PLAYER AI AI AI PLAYER PLAYER) True
     = (0, boardOf PLAYER AI PLAYER PLAYER AI AI AI PLAYER PLAYER)"
proof -
  let ?full = "boardOf PLAYER AI PLAYER PLAYER AI AI AI PLAYER PLAYER"
  have e: "inRange 1 1 \<and> emptyBoard 1 1 = BLANK" by (simp add: emptyBoard_def)
  have n: "empties emptyBoard = 9" "empties (put emptyBoard 1 1 AI) = 8"
    by (simp_all add: empties_def cells_def emptyBoard_boardOf boardOf_eval)
  have f: "empties ?full = 0" by (simp add: empties_def cells_def boardOf_eval)
  have v: "evaluate ?full = 0" by (simp add: evaluate_def boardOf_eval)
  from minimax_terminates [of emptyBoard True] minimax_terminates [of ?full True] e n f v
  show ?thesis by simp
qed

end
